theory Spec2Isabelle
  imports Complex_Main "HOL-Library.AList"
begin

section \<open>The diagram model consumed by the editor\<close>

text \<open>
  The editor (\<^verbatim>\<open>src/wireframes/renderer/editor.tsx\<close>) reads three members of a
  \<^verbatim>\<open>DiagramShape\<close>: its \<^verbatim>\<open>id\<close>, its \<^verbatim>\<open>renderer\<close> key, and the object itself, which
  \<^verbatim>\<open>ShapeRef.render\<close> compares by reference (\<^verbatim>\<open>this.shape !== shape\<close>).  A shape
  object is therefore a record that carries the address of the object next to the two
  fields; two shapes are the same reference exactly when the records are equal, and a
  shape that was replaced by a new object with the same contents differs in \<open>addr\<close>.
  The field \<^verbatim>\<open>id\<close> is called \<open>shapeId\<close> and \<^verbatim>\<open>renderer\<close> is called \<open>rendererKey\<close>
  (\<open>id\<close> is a constant of HOL, \<open>renderer\<close> is also a field of \<^verbatim>\<open>ShapeRef\<close>).
\<close>

record DiagramShape =
  addr :: nat
  shapeId :: string
  rendererKey :: string

record DiagramGroup =
  groupId :: string
  childIds :: "string list"

datatype DiagramItem = Shape DiagramShape | Group DiagramGroup

record Diagram =
  rootIds :: "string list"
  items :: "string \<rightharpoonup> DiagramItem"

section \<open>Flattening: \<^verbatim>\<open>Editor.getFlattenShapes\<close>\<close>

text \<open>
  \<^verbatim>\<open>handleContainer\<close> walks an id list with \<^verbatim>\<open>forEach\<close> and calls itself on the child
  ids of every group.  Nothing in the code bounds the nesting (a group may list itself),
  so the recursion is given the number of nested calls that are still available: the
  first argument plays the role of the remaining call stack, and \<open>None\<close> is the
  traversal that exhausts it.  The accumulator is the local array \<^verbatim>\<open>flattenShapes\<close>.
\<close>

fun handleContainer ::
  "nat \<Rightarrow> (string \<rightharpoonup> DiagramItem) \<Rightarrow> string list \<Rightarrow> DiagramShape list
     \<Rightarrow> DiagramShape list option" where
  "handleContainer stack its [] flattenShapes = Some flattenShapes"
| "handleContainer stack its (itemId # itemIds) flattenShapes =
     (case its itemId of
        None \<Rightarrow> handleContainer stack its itemIds flattenShapes
      | Some (Shape item) \<Rightarrow> handleContainer stack its itemIds (flattenShapes @ [item])
      | Some (Group item) \<Rightarrow>
          (case stack of
             0 \<Rightarrow> None
           | Suc deeper \<Rightarrow>
               (case handleContainer deeper its (childIds item) flattenShapes of
                  None \<Rightarrow> None
                | Some flattenShapes' \<Rightarrow> handleContainer stack its itemIds flattenShapes')))"

section \<open>The scene surface and the renderers\<close>

text \<open>
  The editor draws on an \<^verbatim>\<open>svg.Doc\<close> through \<^verbatim>\<open>svg.Element\<close> objects and through
  the \<^verbatim>\<open>Renderer\<close> plugins of the renderer service; none of the three is code of this
  repository.  Elements, documents and renderers are objects, named here by numbers.
  \<^verbatim>\<open>ShapeRef\<close> objects are shared between the two lookup tables of the editor and are
  mutated through either of them, so they live in a store \<open>heap\<close> and the tables hold
  addresses.
\<close>

type_synonym Element = nat
type_synonym Doc = nat
type_synonym Renderer = nat
type_synonym RefAddr = nat

text \<open>
  \<^verbatim>\<open>class ShapeRef\<close>.  The constructor receives \<^verbatim>\<open>registeredRenderers[shape.renderer]\<close>,
  which is \<^verbatim>\<open>undefined\<close> for an unregistered key, hence the option; \<open>shape\<close> and
  \<open>renderedElement\<close> are unassigned until the first \<^verbatim>\<open>render\<close>.
\<close>

record ShapeRef =
  doc :: Doc
  renderer :: "Renderer option"
  showDebugMarkers :: bool
  shape :: "DiagramShape option"
  renderedElement :: "Element option"

text \<open>The calls a renderer receives, in the order in which they are made.\<close>

datatype RendererCall =
  SetContext Renderer Doc
| Render Renderer DiagramShape bool

text \<open>
  \<^verbatim>\<open>EditorProps\<close>, as far as \<^verbatim>\<open>renderDiagram\<close> reads them, together with the module
  constant \<^verbatim>\<open>isProduction\<close>.
\<close>

record EditorProps =
  registeredRenderers :: "string \<rightharpoonup> Renderer"
  selectedDiagram :: "Diagram option"
  isProduction :: bool

text \<open>
  The mutable state one reconciliation pass works on: the private fields of \<^verbatim>\<open>Editor\<close>
  (\<open>diagramDoc\<close>, \<open>shapeRefsById\<close>, \<open>shapeRefsByRenderElement\<close>), the store of
  \<^verbatim>\<open>ShapeRef\<close> objects with its allocation pointer, and the world outside the class: the
  child list of every document in insertion order (\<open>children\<close>), the next unused
  element id, the document each renderer is bound to, and the log of renderer calls.
  The two tables are JavaScript objects used as dictionaries; they are association
  lists because \<^verbatim>\<open>for (let id in this.shapeRefsById)\<close> enumerates the keys.  A key is
  taken not to be the name of a member that every JavaScript object inherits
  (\<^verbatim>\<open>constructor\<close>, \<^verbatim>\<open>toString\<close>, ...): shape ids and renderer keys are generated names.
\<close>

record Editor =
  diagramDoc :: "Doc option"
  shapeRefsById :: "(string \<times> RefAddr) list"
  shapeRefsByRenderElement :: "(Element \<times> RefAddr) list"
  heap :: "RefAddr \<Rightarrow> ShapeRef"
  nextRef :: RefAddr
  children :: "Doc \<Rightarrow> Element list"
  nextElement :: Element
  rendererContext :: "Renderer \<rightharpoonup> Doc"
  calls :: "RendererCall list"

text \<open>
  The two errors a pass can raise.  Both are \<^verbatim>\<open>TypeError\<close>s of the JavaScript runtime:
  \<^verbatim>\<open>this.renderer.setContext\<close> on an undefined renderer (the unresolved renderer of the
  specification), and \<^verbatim>\<open>this.renderedElement.id()\<close> on an undefined element.  The third
  is the \<^verbatim>\<open>RangeError\<close> of a traversal that exhausts the call stack.
\<close>

datatype error = RendererUndefined | RenderedElementUndefined | CallStackExceeded

text \<open>
  Modelled from the spec: \<^verbatim>\<open>svg.Element.remove\<close> and \<^verbatim>\<open>svg.Doc.add\<close> of the scene surface
  (``a mutable 2D scene root supporting element insertion/removal'').  Removal detaches
  the element from its parent; insertion appends the element to the document, moving it
  when it is attached already (an element has one place in the scene).
\<close>

definition Element_remove :: "Element \<Rightarrow> Editor \<Rightarrow> Editor" where
  "Element_remove e w = w\<lparr>children := (\<lambda>d. removeAll e (children w d))\<rparr>"

definition Doc_add :: "Doc \<Rightarrow> Element \<Rightarrow> Editor \<Rightarrow> Editor" where
  "Doc_add d e w =
     w\<lparr>children := (\<lambda>d'. if d' = d then removeAll e (children w d') @ [e]
                          else removeAll e (children w d'))\<rparr>"

text \<open>
  Modelled from the spec: the \<^verbatim>\<open>Renderer\<close> capability.  \<^verbatim>\<open>setContext\<close> ``binds the
  renderer to the current scene root before rendering''; \<^verbatim>\<open>render\<close> ``produces a new
  scene element'': an element with an id that was never used, inserted last into the
  document the renderer is bound to, and nothing else in the scene is touched.
\<close>

definition Renderer_setContext :: "Renderer \<Rightarrow> Doc \<Rightarrow> Editor \<Rightarrow> Editor" where
  "Renderer_setContext r d w =
     w\<lparr>rendererContext := (rendererContext w)(r \<mapsto> d),
       calls := calls w @ [SetContext r d]\<rparr>"

definition Renderer_render ::
  "Renderer \<Rightarrow> DiagramShape \<Rightarrow> bool \<Rightarrow> Editor \<Rightarrow> Element \<times> Editor" where
  "Renderer_render r s dbg w =
     (let e = nextElement w in
      (e, w\<lparr>children :=
               (case rendererContext w r of
                  None \<Rightarrow> children w
                | Some d \<Rightarrow> (children w)(d := children w d @ [e])),
             nextElement := Suc e,
             calls := calls w @ [Render r s dbg]\<rparr>))"

section \<open>\<^verbatim>\<open>ShapeRef\<close>\<close>

text \<open>\<^verbatim>\<open>get renderId()\<close>: the id of the rendered element; a \<^verbatim>\<open>TypeError\<close> without one.\<close>

definition renderId :: "RefAddr \<Rightarrow> Editor \<Rightarrow> Element option" where
  "renderId this w = renderedElement (heap w this)"

definition ShapeRef_new :: "Doc \<Rightarrow> Renderer option \<Rightarrow> bool \<Rightarrow> Editor \<Rightarrow> RefAddr \<times> Editor" where
  "ShapeRef_new d r dbg w =
     (nextRef w,
      w\<lparr>heap := (heap w)(nextRef w :=
                   \<lparr>doc = d, renderer = r, showDebugMarkers = dbg,
                    shape = None, renderedElement = None\<rparr>),
        nextRef := Suc (nextRef w)\<rparr>)"

definition ShapeRef_remove :: "RefAddr \<Rightarrow> Editor \<Rightarrow> Editor" where
  "ShapeRef_remove this w =
     (case renderedElement (heap w this) of
        None \<Rightarrow> w
      | Some e \<Rightarrow> Element_remove e w)"

definition setShape :: "RefAddr \<Rightarrow> DiagramShape \<Rightarrow> Editor \<Rightarrow> Editor" where
  "setShape this s w = w\<lparr>heap := (heap w)(this := (heap w this)\<lparr>shape := Some s\<rparr>)\<rparr>"

definition setRenderedElement :: "RefAddr \<Rightarrow> Element \<Rightarrow> Editor \<Rightarrow> Editor" where
  "setRenderedElement this e w =
     w\<lparr>heap := (heap w)(this := (heap w this)\<lparr>renderedElement := Some e\<rparr>)\<rparr>"

text \<open>
  \<^verbatim>\<open>ShapeRef.render\<close>.  \<open>mustRender\<close> is the local constant of that name; the comparison
  \<^verbatim>\<open>this.shape !== shape\<close> is by reference.  \<^verbatim>\<open>this.shape = shape\<close> is the last
  statement, so a throw leaves \<open>shape\<close> as it was.  On the cheap path the ref has an
  element (\<open>mustRender\<close> is false), and the case without one is there for totality.
\<close>

definition mustRender :: "RefAddr \<Rightarrow> DiagramShape \<Rightarrow> Editor \<Rightarrow> bool" where
  "mustRender this s w \<longleftrightarrow>
     shape (heap w this) \<noteq> Some s \<or> renderedElement (heap w this) = None"

definition ShapeRef_render ::
  "RefAddr \<Rightarrow> DiagramShape \<Rightarrow> Editor \<Rightarrow> (error \<times> Editor) + Editor" where
  "ShapeRef_render this s w =
     (if mustRender this s w then
        (case renderer (heap w this) of
           None \<Rightarrow> Inl (RendererUndefined, w)
         | Some r \<Rightarrow>
             (let w1 = Renderer_setContext r (doc (heap w this)) w;
                  (e, w2) = Renderer_render r s (showDebugMarkers (heap w this)) w1
              in Inr (setShape this s (setRenderedElement this e w2))))
      else
        (case renderedElement (heap w this) of
           None \<Rightarrow> Inl (RenderedElementUndefined, w)
         | Some e \<Rightarrow> Inr (setShape this s (Doc_add (doc (heap w this)) e w))))"

section \<open>\<^verbatim>\<open>Editor\<close>\<close>

definition getFlattenShapes :: "nat \<Rightarrow> EditorProps \<Rightarrow> DiagramShape list option" where
  "getFlattenShapes stack props =
     (case selectedDiagram props of
        None \<Rightarrow> Some []
      | Some diagram \<Rightarrow> handleContainer stack (items diagram) (rootIds diagram) [])"

text \<open>\<^verbatim>\<open>allShapes.forEach(item => allShapesById[item.id] = true)\<close>\<close>

definition allShapesById :: "DiagramShape list \<Rightarrow> (string \<rightharpoonup> bool)" where
  "allShapesById allShapes = fold (\<lambda>item m. m(shapeId item \<mapsto> True)) allShapes Map.empty"

text \<open>
  The first loop of \<^verbatim>\<open>renderDiagram\<close>, over the keys the table had when the loop
  started.  A key that is no longer an own property is skipped.  For a stale id the entry
  of the id table is deleted before \<^verbatim>\<open>ref.renderId\<close> is evaluated.
\<close>

fun pruneRefs ::
  "(string \<rightharpoonup> bool) \<Rightarrow> string list \<Rightarrow> Editor \<Rightarrow> (error \<times> Editor) + Editor" where
  "pruneRefs live [] w = Inr w"
| "pruneRefs live (i # ids) w =
     (case map_of (shapeRefsById w) i of
        None \<Rightarrow> pruneRefs live ids w
      | Some ref \<Rightarrow>
          (let w1 = ShapeRef_remove ref w in
           if live i \<noteq> Some True then
             (let w2 = w1\<lparr>shapeRefsById := AList.delete i (shapeRefsById w1)\<rparr> in
              case renderId ref w2 of
                None \<Rightarrow> Inl (RenderedElementUndefined, w2)
              | Some e \<Rightarrow>
                  pruneRefs live ids
                    (w2\<lparr>shapeRefsByRenderElement :=
                          AList.delete e (shapeRefsByRenderElement w2)\<rparr>))
           else pruneRefs live ids w1))"

text \<open>The body of the second loop, for one shape of the flattened list.\<close>

definition renderShape ::
  "EditorProps \<Rightarrow> Doc \<Rightarrow> DiagramShape \<Rightarrow> Editor \<Rightarrow> (error \<times> Editor) + Editor" where
  "renderShape props d s w =
     (let (ref, w1) =
            (case map_of (shapeRefsById w) (shapeId s) of
               Some ref \<Rightarrow> (ref, w)
             | None \<Rightarrow>
                 ShapeRef_new d (registeredRenderers props (rendererKey s))
                   (\<not> isProduction props) w)
      in case ShapeRef_render ref s w1 of
           Inl failure \<Rightarrow> Inl failure
         | Inr w2 \<Rightarrow>
             (case renderId ref w2 of
                None \<Rightarrow> Inl (RenderedElementUndefined, w2)
              | Some e \<Rightarrow>
                  Inr (w2\<lparr>shapeRefsByRenderElement :=
                             AList.update e ref (shapeRefsByRenderElement w2),
                           shapeRefsById :=
                             AList.update (shapeId s) ref (shapeRefsById w2)\<rparr>)))"

fun renderShapes ::
  "EditorProps \<Rightarrow> Doc \<Rightarrow> DiagramShape list \<Rightarrow> Editor \<Rightarrow> (error \<times> Editor) + Editor" where
  "renderShapes props d [] w = Inr w"
| "renderShapes props d (s # allShapes) w =
     (case renderShape props d s w of
        Inl failure \<Rightarrow> Inl failure
      | Inr w' \<Rightarrow> renderShapes props d allShapes w')"

text \<open>
  \<^verbatim>\<open>Editor.renderDiagram\<close>.  \<open>Inr\<close> is the pass that returns, \<open>Inl\<close> the pass that
  throws, with the state it leaves behind.
\<close>

definition renderDiagram ::
  "nat \<Rightarrow> EditorProps \<Rightarrow> Editor \<Rightarrow> (error \<times> Editor) + Editor" where
  "renderDiagram stack props w =
     (case diagramDoc w of
        None \<Rightarrow> Inr w
      | Some d \<Rightarrow>
          (case getFlattenShapes stack props of
             None \<Rightarrow> Inl (CallStackExceeded, w)
           | Some allShapes \<Rightarrow>
               (case pruneRefs (allShapesById allShapes) (map fst (shapeRefsById w)) w of
                  Inl failure \<Rightarrow> Inl failure
                | Inr w' \<Rightarrow> renderShapes props d allShapes w')))"

text \<open>
  \<^verbatim>\<open>initDiagramScope\<close> binds the document and runs a pass (the \<^verbatim>\<open>forceUpdate\<close> that
  follows asks the host for an update, which arrives as \<^verbatim>\<open>componentDidUpdate\<close>).
  \<open>newEditor\<close> is the component after construction: no document, empty tables.
\<close>

definition initDiagramScope ::
  "nat \<Rightarrow> EditorProps \<Rightarrow> Doc \<Rightarrow> Editor \<Rightarrow> (error \<times> Editor) + Editor" where
  "initDiagramScope stack props d w = renderDiagram stack props (w\<lparr>diagramDoc := Some d\<rparr>)"

definition componentDidUpdate ::
  "nat \<Rightarrow> EditorProps \<Rightarrow> Editor \<Rightarrow> (error \<times> Editor) + Editor" where
  "componentDidUpdate stack props w = renderDiagram stack props w"

definition newEditor :: Editor where
  "newEditor =
     \<lparr>diagramDoc = None, shapeRefsById = [], shapeRefsByRenderElement = [],
      heap = (\<lambda>_. \<lparr>doc = 0, renderer = None, showDebugMarkers = False,
                    shape = None, renderedElement = None\<rparr>),
      nextRef = 0, children = (\<lambda>_. []), nextElement = 0,
      rendererContext = Map.empty, calls = []\<rparr>"

section \<open>The \<^verbatim>\<open>ui\<close> reducer\<close>

text \<open>
  \<^verbatim>\<open>src/wireframes/model/actions/ui.ts\<close>.  \<^verbatim>\<open>UIState\<close> is declared elsewhere; the reducer
  touches four of its fields, and whatever else the state holds is the extension part of
  the record, which \<^verbatim>\<open>{...state, f: v}\<close> copies.  An action is the object the action
  creators build: its \<^verbatim>\<open>type\<close> (here \<open>actionType\<close>) and the two payload members the
  reducer reads.
\<close>

record UIState =
  zoom :: real
  selectedTab :: string
  showLeftSidebar :: bool
  showRightSidebar :: bool

record Action =
  actionType :: string
  zoomLevel :: real
  tab :: string

definition SHOW_INFO_TOAST :: string where "SHOW_INFO_TOAST = ''SHOW_INFO_TOAST''"
definition SHOW_ERROR_TOAST :: string where "SHOW_ERROR_TOAST = ''SHOW_ERROR_TOAST''"
definition SET_ZOOM :: string where "SET_ZOOM = ''SET_ZOOM''"
definition SELECT_TAB :: string where "SELECT_TAB = ''SELECT_TAB''"
definition TOGGLE_LEFT_SIDEBAR :: string where "TOGGLE_LEFT_SIDEBAR = ''TOGGLE_LEFT_SIDEBAR''"
definition TOGGlE_RIGHT_SIDEBAR :: string where "TOGGlE_RIGHT_SIDEBAR = ''TOGGle_RIGHT_SIDEBAR''"

text \<open>
  \<^verbatim>\<open>ui(initialState)\<close> returns the reducer; the reducer's \<^verbatim>\<open>state = initialState\<close>
  default applies when the store passes \<^verbatim>\<open>undefined\<close>, which is \<open>None\<close> here.
\<close>

definition ui :: "'a UIState_scheme \<Rightarrow> 'a UIState_scheme option \<Rightarrow> Action \<Rightarrow> 'a UIState_scheme" where
  "ui initialState passed action =
     (let state = (case passed of None \<Rightarrow> initialState | Some given \<Rightarrow> given) in
      if actionType action = SET_ZOOM then state\<lparr>zoom := zoomLevel action\<rparr>
      else if actionType action = SELECT_TAB then state\<lparr>selectedTab := tab action\<rparr>
      else if actionType action = TOGGLE_LEFT_SIDEBAR
        then state\<lparr>showLeftSidebar := \<not> showLeftSidebar state\<rparr>
      else if actionType action = TOGGlE_RIGHT_SIDEBAR
        then state\<lparr>showRightSidebar := \<not> showRightSidebar state\<rparr>
      else state)"

definition setZoom :: "real \<Rightarrow> Action" where
  "setZoom level = \<lparr>actionType = SET_ZOOM, zoomLevel = level, tab = []\<rparr>"

definition exampleUIState :: UIState where
  "exampleUIState =
     \<lparr>zoom = 1, selectedTab = ''shapes'', showLeftSidebar = True, showRightSidebar = False\<rparr>"

section \<open>The flattening order as the specification words it\<close>

text \<open>
  ``For each id in the current traversal frontier, resolve it via the item mapping; if it
  is a Shape, append to the flattened list; if it is a Group, recurse into its child-id
  sequence in order; unresolved ids are silently skipped.''  \<open>flattened its ids out\<close>:
  the id list \<open>ids\<close> flattens to the shape sequence \<open>out\<close>.
\<close>

inductive flattened :: "(string \<rightharpoonup> DiagramItem) \<Rightarrow> string list \<Rightarrow> DiagramShape list \<Rightarrow> bool" where
  frontier_done: "flattened its [] []"
| unresolved: "its i = None \<Longrightarrow> flattened its ids out \<Longrightarrow> flattened its (i # ids) out"
| shape: "its i = Some (Shape s) \<Longrightarrow> flattened its ids out \<Longrightarrow> flattened its (i # ids) (s # out)"
| group: "its i = Some (Group g) \<Longrightarrow> flattened its (childIds g) inner \<Longrightarrow> flattened its ids out
            \<Longrightarrow> flattened its (i # ids) (inner @ out)"

code_pred flattened .

definition flattenedDiagram :: "Diagram option \<Rightarrow> DiagramShape list \<Rightarrow> bool" where
  "flattenedDiagram selected out =
     (case selected of None \<Rightarrow> out = [] | Some diagram \<Rightarrow> flattened (items diagram) (rootIds diagram) out)"

section \<open>Concrete inputs\<close>

text \<open>
  The diagram of the specification's flatten example: root ids \<open>[G1, S1]\<close>, the group
  \<open>G1\<close> with the children \<open>[S2, S3]\<close>; and two renderers registered under the keys of
  its shapes.
\<close>

definition S1 :: DiagramShape where
  "S1 = \<lparr>addr = 1, shapeId = ''S1'', rendererKey = ''Button''\<rparr>"

definition S2 :: DiagramShape where
  "S2 = \<lparr>addr = 2, shapeId = ''S2'', rendererKey = ''Button''\<rparr>"

definition S3 :: DiagramShape where
  "S3 = \<lparr>addr = 3, shapeId = ''S3'', rendererKey = ''Label''\<rparr>"

definition G1 :: DiagramGroup where
  "G1 = \<lparr>groupId = ''G1'', childIds = [''S2'', ''S3'']\<rparr>"

definition exampleItems :: "string \<rightharpoonup> DiagramItem" where
  "exampleItems =
     [''G1'' \<mapsto> Group G1, ''S1'' \<mapsto> Shape S1, ''S2'' \<mapsto> Shape S2, ''S3'' \<mapsto> Shape S3]"

definition exampleDiagram :: Diagram where
  "exampleDiagram = \<lparr>rootIds = [''G1'', ''S1''], items = exampleItems\<rparr>"

definition exampleRenderers :: "string \<rightharpoonup> Renderer" where
  "exampleRenderers = [''Button'' \<mapsto> 0, ''Label'' \<mapsto> 1]"

definition exampleProps :: EditorProps where
  "exampleProps =
     \<lparr>registeredRenderers = exampleRenderers, selectedDiagram = Some exampleDiagram,
      isProduction = False\<rparr>"

text \<open>The same diagram with an id in the root list that the item mapping does not have.\<close>

definition danglingDiagram :: Diagram where
  "danglingDiagram = \<lparr>rootIds = [''G1''] @ ''gone'' # [''S1''], items = exampleItems\<rparr>"

text \<open>The editor after \<^verbatim>\<open>initDiagramScope\<close> stored the document \<open>7\<close>, before its first pass.\<close>

definition boundEditor :: Editor where
  "boundEditor = newEditor\<lparr>diagramDoc := Some 7\<rparr>"

text \<open>The example with no renderer registered for the key of \<open>S3\<close>.\<close>

definition labelMissingProps :: EditorProps where
  "labelMissingProps = exampleProps\<lparr>registeredRenderers := [''Button'' \<mapsto> 0]\<rparr>"

text \<open>
  A diagram with the one root shape \<open>shown\<close> under the id \<open>S1\<close>; the shape \<open>S1\<close> replaced
  by a new object with the same id; and the editor as the first pass over the diagram of
  \<open>S1\<close> leaves it: one \<^verbatim>\<open>ShapeRef\<close> at address \<open>0\<close>, its element \<open>0\<close> attached.
\<close>

definition singleProps :: "DiagramShape option \<Rightarrow> EditorProps" where
  "singleProps shown =
     \<lparr>registeredRenderers = exampleRenderers,
      selectedDiagram =
        Some \<lparr>rootIds = (case shown of None \<Rightarrow> [] | Some s \<Rightarrow> [''S1'']),
              items = (case shown of None \<Rightarrow> Map.empty | Some s \<Rightarrow> [''S1'' \<mapsto> Shape s])\<rparr>,
      isProduction = False\<rparr>"

definition S1replaced :: DiagramShape where
  "S1replaced = S1\<lparr>addr := 9\<rparr>"

definition renderedEditor :: Editor where
  "renderedEditor =
     \<lparr>diagramDoc = Some 7, shapeRefsById = [(''S1'', 0)], shapeRefsByRenderElement = [(0, 0)],
      heap = (\<lambda>_. \<lparr>doc = 0, renderer = None, showDebugMarkers = False,
                    shape = None, renderedElement = None\<rparr>)
             (0 := \<lparr>doc = 7, renderer = Some 0, showDebugMarkers = True,
                    shape = Some S1, renderedElement = Some 0\<rparr>),
      nextRef = 1, children = (\<lambda>_. [])(7 := [0]), nextElement = 1,
      rendererContext = [0 \<mapsto> 7], calls = [SetContext 0 7, Render 0 S1 True]\<rparr>"

section \<open>Well-formed editor states\<close>

text \<open>
  What \<^verbatim>\<open>renderDiagram\<close> itself maintains about the id table, for the document \<open>d\<close> the
  editor is bound to: the keys are the property names of an object, so no key occurs
  twice; every registered \<^verbatim>\<open>ShapeRef\<close> was allocated (\<open>< nextRef\<close>) for \<open>d\<close> with a
  resolved renderer and owns an element that was created (\<open>< nextElement\<close>); no two
  entries own the same element, in particular no two ids share a \<^verbatim>\<open>ShapeRef\<close>; and the
  elements attached to \<open>d\<close> were created.  \<open>newEditor\<close> bound to a document is such a
  state, and every pass, returning or throwing, leads from such a state to such a state
  (\<open>bound_newEditor_consistent\<close>, \<open>renderDiagram_consistent\<close>,
  \<open>renderDiagram_throw_consistent\<close>).  The document is bound once: an editor that was
  given a second document while \<^verbatim>\<open>ShapeRef\<close>s of the first are registered is not such a
  state.
\<close>

definition registeredRef :: "Doc \<Rightarrow> Editor \<Rightarrow> RefAddr \<Rightarrow> bool" where
  "registeredRef d w a \<longleftrightarrow>
     a < nextRef w \<and> doc (heap w a) = d \<and> renderer (heap w a) \<noteq> None \<and>
     (case renderedElement (heap w a) of None \<Rightarrow> False | Some e \<Rightarrow> e < nextElement w)"

definition refsConsistent :: "Doc \<Rightarrow> Editor \<Rightarrow> bool" where
  "refsConsistent d w \<longleftrightarrow>
     distinct (map fst (shapeRefsById w)) \<and>
     distinct (map (\<lambda>entry. renderedElement (heap w (snd entry))) (shapeRefsById w)) \<and>
     (\<forall>entry \<in> set (shapeRefsById w). registeredRef d w (snd entry)) \<and>
     (\<forall>e \<in> set (children w d). e < nextElement w)"

text \<open>The element a shape id is drawn with: the element of the \<^verbatim>\<open>ShapeRef\<close> registered for it.\<close>

definition elementOf :: "Editor \<Rightarrow> string \<Rightarrow> Element option" where
  "elementOf w k =
     (case map_of (shapeRefsById w) k of
        None \<Rightarrow> None
      | Some a \<Rightarrow> renderedElement (heap w a))"

text \<open>The shape that the \<^verbatim>\<open>ShapeRef\<close> registered for an id rendered last.\<close>

definition lastShape :: "Editor \<Rightarrow> string \<Rightarrow> DiagramShape option" where
  "lastShape w k =
     (case map_of (shapeRefsById w) k of
        None \<Rightarrow> None
      | Some a \<Rightarrow> shape (heap w a))"

text \<open>
  An id is drawn on the document \<open>d\<close>: a \<^verbatim>\<open>ShapeRef\<close> is registered for it, the element
  table maps the id of its element to that \<^verbatim>\<open>ShapeRef\<close>, and the element is attached.
\<close>

definition drawn :: "Doc \<Rightarrow> Editor \<Rightarrow> string \<Rightarrow> bool" where
  "drawn d w k \<longleftrightarrow>
     (case map_of (shapeRefsById w) k of
        None \<Rightarrow> False
      | Some a \<Rightarrow>
          (case renderedElement (heap w a) of
             None \<Rightarrow> False
           | Some e \<Rightarrow> map_of (shapeRefsByRenderElement w) e = Some a \<and> e \<in> set (children w d)))"

text \<open>The elements owned by the registered \<^verbatim>\<open>ShapeRef\<close>s, in table order.\<close>

definition shapeElements :: "Editor \<Rightarrow> Element option list" where
  "shapeElements w = map (\<lambda>entry. renderedElement (heap w (snd entry))) (shapeRefsById w)"

text \<open>The shapes a renderer was asked to render, in call order.\<close>

fun renderedShapes :: "RendererCall list \<Rightarrow> DiagramShape list" where
  "renderedShapes [] = []"
| "renderedShapes (SetContext r d # cs) = renderedShapes cs"
| "renderedShapes (Render r s dbg # cs) = s # renderedShapes cs"

section \<open>Properties of the flattening\<close>

text \<open>The accumulator only grows: what was pushed before a call stays in front.\<close>

lemma handleContainer_prefix:
  "handleContainer n its ids (pre @ acc) = map_option ((@) pre) (handleContainer n its ids acc)"
proof (induction n its ids acc arbitrary: pre rule: handleContainer.induct)
  case (1 stack its flattenShapes)
  show ?case by simp
next
  case (2 stack its itemId itemIds flattenShapes)
  show ?case
  proof (cases "its itemId")
    case None
    with 2(1) show ?thesis by simp
  next
    case (Some item)
    show ?thesis
    proof (cases item)
      case (Shape s)
      with Some 2(2)[of item s pre] show ?thesis by simp
    next
      case (Group g)
      show ?thesis
      proof (cases stack)
        case 0
        with Some Group show ?thesis by simp
      next
        case (Suc deeper)
        note inner = 2(3)[OF Some Group Suc, of pre]
        show ?thesis
        proof (cases "handleContainer deeper its (childIds g) flattenShapes")
          case None
          with Some Group Suc inner show ?thesis by simp
        next
          case (Some fs)
          with \<open>its itemId = Some item\<close> Group Suc inner 2(4)[OF \<open>its itemId = Some item\<close> Group Suc Some, of pre]
          show ?thesis by simp
        qed
      qed
    qed
  qed
qed

lemma handleContainer_from_empty:
  "handleContainer n its ids acc = map_option ((@) acc) (handleContainer n its ids [])"
  using handleContainer_prefix [of n its ids acc "[]"] by simp

lemma handleContainer_append:
  "handleContainer n its (xs @ ys) acc =
     (case handleContainer n its xs acc of None \<Rightarrow> None | Some acc' \<Rightarrow> handleContainer n its ys acc')"
proof (induction xs arbitrary: acc)
  case Nil
  show ?case by simp
next
  case (Cons x xs)
  then show ?case
    by (cases n) (auto split: option.splits DiagramItem.splits)
qed

lemma handleContainer_sound:
  "handleContainer n its ids acc = Some r \<Longrightarrow> \<exists>out. r = acc @ out \<and> flattened its ids out"
proof (induction n its ids acc arbitrary: r rule: handleContainer.induct)
  case (1 stack its flattenShapes)
  then show ?case by (auto intro: flattened.intros)
next
  case (2 stack its itemId itemIds flattenShapes)
  show ?case
  proof (cases "its itemId")
    case None
    with 2(1)[OF None, of r] 2(5) show ?thesis by (auto intro: flattened.intros)
  next
    case (Some item)
    show ?thesis
    proof (cases item)
      case (Shape s)
      with Some 2(2)[OF Some Shape, of r] 2(5) show ?thesis
        by (auto intro: flattened.intros)
    next
      case (Group g)
      with Some 2(5) obtain deeper fs where st: "stack = Suc deeper"
        and inner: "handleContainer deeper its (childIds g) flattenShapes = Some fs"
        and rest: "handleContainer stack its itemIds fs = Some r"
        by (auto split: nat.splits option.splits)
      from 2(3)[OF Some Group st inner] obtain o1 where o1: "fs = flattenShapes @ o1" "flattened its (childIds g) o1"
        by blast
      from 2(4)[OF Some Group st inner rest] obtain o2 where o2: "r = fs @ o2" "flattened its itemIds o2"
        by blast
      from Some Group o1 o2 have "flattened its (itemId # itemIds) (o1 @ o2)"
        by (auto intro: flattened.group)
      with o1 o2 show ?thesis by auto
    qed
  qed
qed

lemma handleContainer_complete:
  "flattened its ids out \<Longrightarrow> \<exists>n. \<forall>m\<ge>n. \<forall>acc. handleContainer m its ids acc = Some (acc @ out)"
proof (induction rule: flattened.induct)
  case (frontier_done its)
  show ?case by simp
next
  case (unresolved its i ids out)
  then show ?case by auto
next
  case (shape its i s ids out)
  then obtain n where "\<forall>m\<ge>n. \<forall>acc. handleContainer m its ids acc = Some (acc @ out)"
    by blast
  with shape.hyps(1) have "\<forall>m\<ge>n. \<forall>acc. handleContainer m its (i # ids) acc = Some (acc @ s # out)"
    by simp
  then show ?case by blast
next
  case (group its i g inner ids out)
  from group.IH obtain n1 n2 where
    n1: "\<forall>m\<ge>n1. \<forall>acc. handleContainer m its (childIds g) acc = Some (acc @ inner)" and
    n2: "\<forall>m\<ge>n2. \<forall>acc. handleContainer m its ids acc = Some (acc @ out)"
    by blast
  have "\<forall>m\<ge>max (Suc n1) n2. \<forall>acc. handleContainer m its (i # ids) acc = Some (acc @ inner @ out)"
  proof (intro allI impI)
    fix m acc assume m: "max (Suc n1) n2 \<le> m"
    then obtain m' where m': "m = Suc m'" "n1 \<le> m'" by (cases m) auto
    from m have "n2 \<le> m" by simp
    with n1 n2 m' group.hyps(1) show "handleContainer m its (i # ids) acc = Some (acc @ inner @ out)"
      by simp
  qed
  then show ?case by blast
qed

lemma handleContainer_dangling:
  "its i = None \<Longrightarrow> handleContainer n its (xs @ i # ys) acc = handleContainer n its (xs @ ys) acc"
  by (simp add: handleContainer_append split: option.splits)

lemma handleContainer_dangling_child:
  assumes g: "its k = Some (Group g)" and kids: "childIds g = xs @ i # ys" and i: "its i = None"
  shows "handleContainer n (its(k \<mapsto> Group (g\<lparr>childIds := xs @ ys\<rparr>))) ids acc = handleContainer n its ids acc"
proof (induction n "its(k \<mapsto> Group (g\<lparr>childIds := xs @ ys\<rparr>))" ids acc rule: handleContainer.induct)
  case (1 stack flattenShapes)
  show ?case by simp
next
  case (2 stack itemId itemIds flattenShapes)
  let ?its' = "its(k \<mapsto> Group (g\<lparr>childIds := xs @ ys\<rparr>))"
  show ?case
  proof (cases "itemId = k")
    case True
    show ?thesis
    proof (cases stack)
      case 0
      with True g show ?thesis by simp
    next
      case (Suc deeper)
      have inner: "handleContainer deeper ?its' (xs @ ys) flattenShapes
                   = handleContainer deeper its (childIds g) flattenShapes"
        using 2(3)[of "Group (g\<lparr>childIds := xs @ ys\<rparr>)" "g\<lparr>childIds := xs @ ys\<rparr>" deeper] True Suc
          handleContainer_dangling[of its i deeper xs ys flattenShapes] i kids
        by simp
      show ?thesis
      proof (cases "handleContainer deeper its (childIds g) flattenShapes")
        case None
        with inner True g Suc show ?thesis by simp
      next
        case (Some fs)
        with inner True g Suc 2(4)[of "Group (g\<lparr>childIds := xs @ ys\<rparr>)" "g\<lparr>childIds := xs @ ys\<rparr>" deeper fs]
        show ?thesis by simp
      qed
    qed
  next
    case False
    then have same: "?its' itemId = its itemId" by simp
    show ?thesis
    proof (cases "its itemId")
      case None
      with same 2(1) show ?thesis by simp
    next
      case (Some item)
      show ?thesis
      proof (cases item)
        case (Shape s)
        with Some same 2(2)[of item s] show ?thesis by simp
      next
        case (Group h)
        show ?thesis
        proof (cases stack)
          case 0
          with Some Group same show ?thesis by simp
        next
          case (Suc deeper)
          have inner: "handleContainer deeper ?its' (childIds h) flattenShapes
                   = handleContainer deeper its (childIds h) flattenShapes"
            using 2(3)[of item h deeper] Some Group same Suc by simp
          show ?thesis
          proof (cases "handleContainer deeper its (childIds h) flattenShapes")
            case None
            with inner Some Group same Suc show ?thesis by simp
          next
            case (Some fs)
            with inner \<open>its itemId = Some item\<close> Group same Suc 2(4)[of item h deeper fs]
            show ?thesis by simp
          qed
        qed
      qed
    qed
  qed
qed

text \<open>
  C1.  Flattening is the depth-first, pre-order traversal of the root id list that the
  specification words: with enough call stack \<open>getFlattenShapes\<close> returns a sequence
  exactly when that sequence is the flattening of the selected diagram by the rules
  ``a Shape is appended, a Group's child ids are recursed into in their stored order, an
  unresolved id is skipped'' (and the empty sequence without a diagram).  In particular a
  diagram with the root ids \<open>[g1, i1]\<close>, where \<open>g1\<close> is a group with the children
  \<open>[i2, i3]\<close> and \<open>i1\<close>, \<open>i2\<close>, \<open>i3\<close> are the shapes \<open>s1\<close>, \<open>s2\<close>, \<open>s3\<close>, flattens
  to \<open>[s2, s3, s1]\<close>.
\<close>

theorem getFlattenShapes_depth_first_preorder:
  "((\<exists>stack. getFlattenShapes stack props = Some allShapes)
      \<longleftrightarrow> flattenedDiagram (selectedDiagram props) allShapes)
   \<and> (selectedDiagram props = Some diagram \<longrightarrow> rootIds diagram = [g1, i1]
        \<longrightarrow> items diagram g1 = Some (Group g) \<longrightarrow> childIds g = [i2, i3]
        \<longrightarrow> items diagram i1 = Some (Shape s1) \<longrightarrow> items diagram i2 = Some (Shape s2)
        \<longrightarrow> items diagram i3 = Some (Shape s3)
        \<longrightarrow> getFlattenShapes (Suc stack) props = Some [s2, s3, s1])"
proof (intro conjI iffI impI)
  assume "\<exists>stack. getFlattenShapes stack props = Some allShapes"
  then obtain stack where run: "getFlattenShapes stack props = Some allShapes" ..
  show "flattenedDiagram (selectedDiagram props) allShapes"
  proof (cases "selectedDiagram props")
    case None
    with run show ?thesis by (simp add: getFlattenShapes_def flattenedDiagram_def)
  next
    case (Some d)
    with run have "handleContainer stack (items d) (rootIds d) [] = Some allShapes"
      by (simp add: getFlattenShapes_def)
    from handleContainer_sound[OF this] Some show ?thesis
      by (simp add: flattenedDiagram_def)
  qed
next
  assume spec: "flattenedDiagram (selectedDiagram props) allShapes"
  show "\<exists>stack. getFlattenShapes stack props = Some allShapes"
  proof (cases "selectedDiagram props")
    case None
    with spec show ?thesis by (simp add: getFlattenShapes_def flattenedDiagram_def)
  next
    case (Some d)
    with spec have "flattened (items d) (rootIds d) allShapes"
      by (simp add: flattenedDiagram_def)
    from handleContainer_complete[OF this] obtain n where
      "\<forall>m\<ge>n. \<forall>acc. handleContainer m (items d) (rootIds d) acc = Some (acc @ allShapes)" ..
    then have "handleContainer n (items d) (rootIds d) [] = Some allShapes" by simp
    with Some have "getFlattenShapes n props = Some allShapes"
      by (simp add: getFlattenShapes_def)
    then show ?thesis ..
  qed
next
  assume "selectedDiagram props = Some diagram" "rootIds diagram = [g1, i1]"
    "items diagram g1 = Some (Group g)" "childIds g = [i2, i3]"
    "items diagram i1 = Some (Shape s1)" "items diagram i2 = Some (Shape s2)"
    "items diagram i3 = Some (Shape s3)"
  then show "getFlattenShapes (Suc stack) props = Some [s2, s3, s1]"
    by (simp add: getFlattenShapes_def)
qed

theorem getFlattenShapes_depth_first_preorder_witness:
  "getFlattenShapes 1 exampleProps = Some [S2, S3, S1]
   \<and> flattenedDiagram (Some exampleDiagram) [S2, S3, S1]"
proof -
  note claim = getFlattenShapes_depth_first_preorder
    [of exampleProps "[S2, S3, S1]" exampleDiagram "''G1''" "''S1''" G1 "''S2''" "''S3''" S1 S2 S3 0]
  have run: "getFlattenShapes (Suc 0) exampleProps = Some [S2, S3, S1]"
    using claim by (simp add: exampleProps_def exampleDiagram_def exampleItems_def G1_def)
  then have "\<exists>stack. getFlattenShapes stack exampleProps = Some [S2, S3, S1]" ..
  with claim have "flattenedDiagram (selectedDiagram exampleProps) [S2, S3, S1]" by blast
  with run show ?thesis by (simp add: exampleProps_def)
qed

text \<open>
  C6.  An id that does not resolve in the item mapping is skipped: a root list, or the
  child list of a group, that holds such an id flattens, for every call stack, to the
  result of the same diagram with that id left out of the list (the same sequence, or
  the same exhausted stack), and whenever the diagram without the id flattens to a
  sequence the diagram with the id returns that sequence, given enough stack.  The lookup
  of the unresolved id raises nothing.
\<close>

theorem getFlattenShapes_dangling_id_omitted:
  "(selectedDiagram props = Some diagram \<longrightarrow> items diagram i = None
      \<longrightarrow> rootIds diagram = xs @ i # ys
      \<longrightarrow> getFlattenShapes stack props
            = getFlattenShapes stack (props\<lparr>selectedDiagram := Some (diagram\<lparr>rootIds := xs @ ys\<rparr>)\<rparr>)
          \<and> (flattenedDiagram (Some (diagram\<lparr>rootIds := xs @ ys\<rparr>)) out
               \<longrightarrow> (\<exists>enough. getFlattenShapes enough props = Some out)))
   \<and> (selectedDiagram props = Some diagram \<longrightarrow> items diagram i = None
      \<longrightarrow> items diagram k = Some (Group g) \<longrightarrow> childIds g = xs @ i # ys
      \<longrightarrow> getFlattenShapes stack props
            = getFlattenShapes stack
                (props\<lparr>selectedDiagram :=
                   Some (diagram\<lparr>items := (items diagram)(k \<mapsto> Group (g\<lparr>childIds := xs @ ys\<rparr>))\<rparr>)\<rparr>)
          \<and> (flattenedDiagram
                (Some (diagram\<lparr>items := (items diagram)(k \<mapsto> Group (g\<lparr>childIds := xs @ ys\<rparr>))\<rparr>)) out
               \<longrightarrow> (\<exists>enough. getFlattenShapes enough props = Some out)))"
proof (intro conjI impI)
  assume d: "selectedDiagram props = Some diagram" and i: "items diagram i = None"
    and roots: "rootIds diagram = xs @ i # ys"
  show eq: "getFlattenShapes stack props
      = getFlattenShapes stack (props\<lparr>selectedDiagram := Some (diagram\<lparr>rootIds := xs @ ys\<rparr>)\<rparr>)"
    for stack
    using d roots handleContainer_dangling[of "items diagram" i stack xs ys "[]"] i
    by (simp add: getFlattenShapes_def)
  assume "flattenedDiagram (Some (diagram\<lparr>rootIds := xs @ ys\<rparr>)) out"
  then have "flattened (items diagram) (xs @ ys) out" by (simp add: flattenedDiagram_def)
  from handleContainer_complete[OF this] obtain n where
    "\<forall>m\<ge>n. \<forall>acc. handleContainer m (items diagram) (xs @ ys) acc = Some (acc @ out)" ..
  then have "handleContainer n (items diagram) (xs @ ys) [] = Some out" by simp
  then have "getFlattenShapes n (props\<lparr>selectedDiagram := Some (diagram\<lparr>rootIds := xs @ ys\<rparr>)\<rparr>) = Some out"
    by (simp add: getFlattenShapes_def)
  with eq[of n] show "\<exists>enough. getFlattenShapes enough props = Some out" by auto
next
  assume d: "selectedDiagram props = Some diagram" and i: "items diagram i = None"
    and k: "items diagram k = Some (Group g)" and kids: "childIds g = xs @ i # ys"
  let ?its' = "(items diagram)(k \<mapsto> Group (g\<lparr>childIds := xs @ ys\<rparr>))"
  show eq: "getFlattenShapes stack props
      = getFlattenShapes stack (props\<lparr>selectedDiagram := Some (diagram\<lparr>items := ?its'\<rparr>)\<rparr>)"
    for stack
    using d handleContainer_dangling_child[OF k kids i, of stack "rootIds diagram" "[]"]
    by (simp add: getFlattenShapes_def)
  assume "flattenedDiagram (Some (diagram\<lparr>items := ?its'\<rparr>)) out"
  then have "flattened ?its' (rootIds diagram) out" by (simp add: flattenedDiagram_def)
  from handleContainer_complete[OF this] obtain n where
    "\<forall>m\<ge>n. \<forall>acc. handleContainer m ?its' (rootIds diagram) acc = Some (acc @ out)" ..
  then have "handleContainer n ?its' (rootIds diagram) [] = Some out" by simp
  then have "getFlattenShapes n (props\<lparr>selectedDiagram := Some (diagram\<lparr>items := ?its'\<rparr>)\<rparr>) = Some out"
    by (simp add: getFlattenShapes_def)
  with eq[of n] show "\<exists>enough. getFlattenShapes enough props = Some out" by auto
qed

theorem getFlattenShapes_dangling_id_omitted_witness:
  "getFlattenShapes 1 (exampleProps\<lparr>selectedDiagram := Some danglingDiagram\<rparr>)
     = getFlattenShapes 1 exampleProps
   \<and> getFlattenShapes 1 (exampleProps\<lparr>selectedDiagram := Some danglingDiagram\<rparr>) = Some [S2, S3, S1]"
proof -
  let ?props = "exampleProps\<lparr>selectedDiagram := Some danglingDiagram\<rparr>"
  have omitted: "?props\<lparr>selectedDiagram := Some (danglingDiagram\<lparr>rootIds := [''G1''] @ [''S1'']\<rparr>)\<rparr> = exampleProps"
    by (simp add: exampleProps_def danglingDiagram_def exampleDiagram_def)
  have "getFlattenShapes 1 ?props = getFlattenShapes 1 exampleProps"
    using getFlattenShapes_dangling_id_omitted
      [of ?props danglingDiagram "''gone''" "[''G1'']" "[''S1'']" 1 "[]" "''G1''" G1] omitted
    by (simp add: danglingDiagram_def exampleItems_def)
  moreover have "getFlattenShapes 1 exampleProps = Some [S2, S3, S1]"
    by (simp add: getFlattenShapes_def exampleProps_def exampleDiagram_def exampleItems_def G1_def)
  ultimately show ?thesis by simp
qed

section \<open>Properties of the \<^verbatim>\<open>ui\<close> reducer\<close>

text \<open>
  C10.  For every state and every action the reducer changes only the field that the
  action's type designates: \<open>SET_ZOOM\<close> sets \<open>zoom\<close> to the action's zoom level,
  \<open>SELECT_TAB\<close> sets \<open>selectedTab\<close> to the action's tab, the two toggles negate
  \<open>showLeftSidebar\<close> and \<open>showRightSidebar\<close>; putting the old value of that one field
  back gives the input state, so every other field (the extension part included) is
  unchanged.  For every other action type the reducer returns the input state.
\<close>

theorem ui_changes_only_designated_field:
  "(let next = ui initialState (Some state) action in
     (actionType action = SET_ZOOM \<longrightarrow>
        zoom next = zoomLevel action \<and> next\<lparr>zoom := zoom state\<rparr> = state) \<and>
     (actionType action = SELECT_TAB \<longrightarrow>
        selectedTab next = tab action \<and> next\<lparr>selectedTab := selectedTab state\<rparr> = state) \<and>
     (actionType action = TOGGLE_LEFT_SIDEBAR \<longrightarrow>
        showLeftSidebar next = (\<not> showLeftSidebar state)
        \<and> next\<lparr>showLeftSidebar := showLeftSidebar state\<rparr> = state) \<and>
     (actionType action = TOGGlE_RIGHT_SIDEBAR \<longrightarrow>
        showRightSidebar next = (\<not> showRightSidebar state)
        \<and> next\<lparr>showRightSidebar := showRightSidebar state\<rparr> = state) \<and>
     (actionType action \<notin> {SET_ZOOM, SELECT_TAB, TOGGLE_LEFT_SIDEBAR, TOGGlE_RIGHT_SIDEBAR} \<longrightarrow>
        next = state))"
  by (simp add: ui_def Let_def SET_ZOOM_def SELECT_TAB_def TOGGLE_LEFT_SIDEBAR_def
      TOGGlE_RIGHT_SIDEBAR_def)

theorem ui_changes_only_designated_field_witness:
  "zoom (ui exampleUIState (Some exampleUIState) (setZoom 2)) = 2
   \<and> (ui exampleUIState (Some exampleUIState) (setZoom 2))\<lparr>zoom := 1\<rparr> = exampleUIState
   \<and> ui exampleUIState (Some exampleUIState) \<lparr>actionType = SHOW_INFO_TOAST, zoomLevel = 0, tab = []\<rparr>
       = exampleUIState"
  using ui_changes_only_designated_field [of exampleUIState exampleUIState "setZoom 2"]
    ui_changes_only_designated_field [of exampleUIState exampleUIState
      "\<lparr>actionType = SHOW_INFO_TOAST, zoomLevel = 0, tab = []\<rparr>"]
  by (simp add: Let_def setZoom_def exampleUIState_def SET_ZOOM_def SELECT_TAB_def
      TOGGLE_LEFT_SIDEBAR_def TOGGlE_RIGHT_SIDEBAR_def SHOW_INFO_TOAST_def)

section \<open>Properties of the reconciliation pass\<close>


subsection \<open>Association lists\<close>

lemma update_same: "map_of al k = Some v \<Longrightarrow> AList.update k v al = al"
  by (induction al) (auto split: if_splits)

lemma update_absent: "map_of al k = None \<Longrightarrow> AList.update k v al = al @ [(k, v)]"
  by (induction al) (auto split: if_splits)

subsection \<open>The three ways a shape is rendered, and the two ways it fails\<close>

lemma ShapeRef_render_cheap:
  assumes "shape (heap w a) = Some s" "renderedElement (heap w a) = Some e"
  shows "ShapeRef_render a s w = Inr (Doc_add (doc (heap w a)) e w)"
proof -
  have "(heap w)(a := (heap w a)\<lparr>shape := Some s\<rparr>) = heap w"
    using assms by (auto simp: fun_eq_iff)
  with assms show ?thesis
    by (simp add: ShapeRef_render_def mustRender_def setShape_def Doc_add_def)
qed

lemma ShapeRef_render_full:
  assumes "mustRender a s w" "renderer (heap w a) = Some r"
  shows "ShapeRef_render a s w =
     Inr (w\<lparr>rendererContext := (rendererContext w)(r \<mapsto> doc (heap w a)),
            calls := calls w @ [SetContext r (doc (heap w a)), Render r s (showDebugMarkers (heap w a))],
            children := (children w)(doc (heap w a) := children w (doc (heap w a)) @ [nextElement w]),
            nextElement := Suc (nextElement w),
            heap := (heap w)(a := (heap w a)\<lparr>renderedElement := Some (nextElement w), shape := Some s\<rparr>)\<rparr>)"
  using assms
  by (simp add: ShapeRef_render_def Renderer_setContext_def Renderer_render_def Let_def
      setShape_def setRenderedElement_def)

lemma ShapeRef_render_undefined:
  assumes "mustRender a s w" "renderer (heap w a) = None"
  shows "ShapeRef_render a s w = Inl (RendererUndefined, w)"
  using assms by (simp add: ShapeRef_render_def)

lemma renderShape_cheap:
  assumes "map_of (shapeRefsById w) (shapeId s) = Some a"
    "shape (heap w a) = Some s" "renderedElement (heap w a) = Some e"
  shows "renderShape props d s w =
     Inr (w\<lparr>children := (\<lambda>d'. if d' = doc (heap w a) then removeAll e (children w d') @ [e]
                                else removeAll e (children w d')),
            shapeRefsByRenderElement := AList.update e a (shapeRefsByRenderElement w)\<rparr>)"
  using assms
  by (simp add: renderShape_def ShapeRef_render_cheap renderId_def Doc_add_def update_same)

lemma renderShape_again:
  assumes "map_of (shapeRefsById w) (shapeId s) = Some a"
    "mustRender a s w" "renderer (heap w a) = Some r"
  shows "renderShape props d s w =
     Inr (w\<lparr>rendererContext := (rendererContext w)(r \<mapsto> doc (heap w a)),
            calls := calls w @ [SetContext r (doc (heap w a)), Render r s (showDebugMarkers (heap w a))],
            children := (children w)(doc (heap w a) := children w (doc (heap w a)) @ [nextElement w]),
            nextElement := Suc (nextElement w),
            heap := (heap w)(a := (heap w a)\<lparr>renderedElement := Some (nextElement w), shape := Some s\<rparr>),
            shapeRefsByRenderElement := AList.update (nextElement w) a (shapeRefsByRenderElement w)\<rparr>)"
  using assms
  by (simp add: renderShape_def ShapeRef_render_full renderId_def update_same)

lemma renderShape_new:
  assumes "map_of (shapeRefsById w) (shapeId s) = None"
    "registeredRenderers props (rendererKey s) = Some r"
  shows "renderShape props d s w =
     Inr (w\<lparr>rendererContext := (rendererContext w)(r \<mapsto> d),
            calls := calls w @ [SetContext r d, Render r s (\<not> isProduction props)],
            children := (children w)(d := children w d @ [nextElement w]),
            nextElement := Suc (nextElement w),
            heap := (heap w)(nextRef w :=
                      \<lparr>doc = d, renderer = Some r, showDebugMarkers = \<not> isProduction props,
                       shape = Some s, renderedElement = Some (nextElement w)\<rparr>),
            nextRef := Suc (nextRef w),
            shapeRefsByRenderElement := AList.update (nextElement w) (nextRef w) (shapeRefsByRenderElement w),
            shapeRefsById := shapeRefsById w @ [(shapeId s, nextRef w)]\<rparr>)"
  using assms
  by (simp add: renderShape_def ShapeRef_new_def ShapeRef_render_def mustRender_def
      Renderer_setContext_def Renderer_render_def Let_def setShape_def setRenderedElement_def
      renderId_def update_absent)

lemma renderShape_unresolved:
  assumes "map_of (shapeRefsById w) (shapeId s) = None"
    "registeredRenderers props (rendererKey s) = None"
  shows "renderShape props d s w =
     Inl (RendererUndefined,
          w\<lparr>heap := (heap w)(nextRef w :=
                      \<lparr>doc = d, renderer = None, showDebugMarkers = \<not> isProduction props,
                       shape = None, renderedElement = None\<rparr>),
            nextRef := Suc (nextRef w)\<rparr>)"
  using assms
  by (simp add: renderShape_def ShapeRef_new_def ShapeRef_render_def mustRender_def)

lemma renderShape_lost_renderer:
  assumes "map_of (shapeRefsById w) (shapeId s) = Some a"
    "mustRender a s w" "renderer (heap w a) = None"
  shows "renderShape props d s w = Inl (RendererUndefined, w)"
  using assms by (simp add: renderShape_def ShapeRef_render_undefined)

subsection \<open>Consistency\<close>

lemma registeredRef_iff:
  "registeredRef d w a \<longleftrightarrow>
     a < nextRef w \<and> doc (heap w a) = d \<and> (\<exists>r. renderer (heap w a) = Some r) \<and>
     (\<exists>e. renderedElement (heap w a) = Some e \<and> e < nextElement w)"
  by (cases "renderedElement (heap w a)") (simp_all add: registeredRef_def)

lemma refsConsistentI:
  assumes "distinct (map fst (shapeRefsById w))"
    and "distinct (map (\<lambda>entry. renderedElement (heap w (snd entry))) (shapeRefsById w))"
    and "\<And>entry. entry \<in> set (shapeRefsById w) \<Longrightarrow> registeredRef d w (snd entry)"
    and "\<And>e. e \<in> set (children w d) \<Longrightarrow> e < nextElement w"
  shows "refsConsistent d w"
  using assms unfolding refsConsistent_def by blast

lemma consistent_keys: "refsConsistent d w \<Longrightarrow> distinct (map fst (shapeRefsById w))"
  unfolding refsConsistent_def by blast

lemma consistent_elements:
  "refsConsistent d w \<Longrightarrow>
     distinct (map (\<lambda>entry. renderedElement (heap w (snd entry))) (shapeRefsById w))"
  unfolding refsConsistent_def by blast

lemma consistent_registered:
  "refsConsistent d w \<Longrightarrow> entry \<in> set (shapeRefsById w) \<Longrightarrow> registeredRef d w (snd entry)"
  unfolding refsConsistent_def by blast

lemma consistent_children:
  "refsConsistent d w \<Longrightarrow> e \<in> set (children w d) \<Longrightarrow> e < nextElement w"
  unfolding refsConsistent_def by blast

lemma consistent_lookup:
  assumes "refsConsistent d w" "map_of (shapeRefsById w) k = Some a"
  shows "registeredRef d w a"
proof -
  from assms(2) have "(k, a) \<in> set (shapeRefsById w)" by (rule map_of_SomeD)
  from consistent_registered[OF assms(1) this] show ?thesis by simp
qed

lemma consistent_owner:
  assumes c: "refsConsistent d w"
    and k: "map_of (shapeRefsById w) k = Some a" and k': "map_of (shapeRefsById w) k' = Some a'"
    and same: "renderedElement (heap w a) = renderedElement (heap w a')"
  shows "k = k'"
proof -
  define f where "f = (\<lambda>entry :: string \<times> RefAddr. renderedElement (heap w (snd entry)))"
  from consistent_elements[OF c] have inj: "inj_on f (set (shapeRefsById w))"
    by (simp add: f_def distinct_map)
  from k k' have mem: "(k, a) \<in> set (shapeRefsById w)" "(k', a') \<in> set (shapeRefsById w)"
    by (auto dest: map_of_SomeD)
  from same have "f (k, a) = f (k', a')" by (simp add: f_def)
  from inj_onD[OF inj this mem] show ?thesis by simp
qed

lemma consistent_entry:
  assumes "refsConsistent d w" "(k, a) \<in> set (shapeRefsById w)"
  shows "map_of (shapeRefsById w) k = Some a"
  using consistent_keys[OF assms(1)] assms(2) by simp

lemma consistent_frame:
  assumes c: "refsConsistent d w"
    and "shapeRefsById w' = shapeRefsById w" "heap w' = heap w" "nextRef w' = nextRef w"
      "nextElement w' = nextElement w"
    and ch: "\<And>e. e \<in> set (children w' d) \<Longrightarrow> e < nextElement w"
  shows "refsConsistent d w'"
proof (rule refsConsistentI)
  show "distinct (map fst (shapeRefsById w'))"
    using consistent_keys[OF c] assms(2) by simp
  show "distinct (map (\<lambda>entry. renderedElement (heap w' (snd entry))) (shapeRefsById w'))"
    using consistent_elements[OF c] assms(2,3) by simp
  show "registeredRef d w' (snd entry)" if "entry \<in> set (shapeRefsById w')" for entry
    using consistent_registered[OF c, of entry] that assms(2-5) by (simp add: registeredRef_iff)
  show "e < nextElement w'" if "e \<in> set (children w' d)" for e
    using ch[OF that] assms(5) by simp
qed

lemma consistent_rerender:
  assumes c: "refsConsistent d w"
    and tab: "shapeRefsById w' = shapeRefsById w"
    and hp: "heap w' = (heap w)(a := (heap w a)\<lparr>renderedElement := Some (nextElement w), shape := sh\<rparr>)"
    and nr: "nextRef w' = nextRef w"
    and ne: "nextElement w' = Suc (nextElement w)"
    and ch: "\<And>e. e \<in> set (children w' d) \<Longrightarrow> e \<le> nextElement w"
  shows "refsConsistent d w'"
proof (rule refsConsistentI)
  define f where "f = (\<lambda>entry :: string \<times> RefAddr. renderedElement (heap w (snd entry)))"
  define f' where "f' = (\<lambda>entry :: string \<times> RefAddr. renderedElement (heap w' (snd entry)))"
  have f': "f' entry = (if snd entry = a then Some (nextElement w) else f entry)" for entry
    by (simp add: f'_def f_def hp)
  have old: "f entry \<noteq> Some (nextElement w)" if "entry \<in> set (shapeRefsById w)" for entry
    using consistent_registered[OF c that] by (auto simp: registeredRef_iff f_def)
  from consistent_elements[OF c] have inj: "inj_on f (set (shapeRefsById w))"
    and dist: "distinct (shapeRefsById w)"
    by (simp_all add: f_def distinct_map)
  have "inj_on f' (set (shapeRefsById w))"
  proof (rule inj_onI)
    fix x y assume x: "x \<in> set (shapeRefsById w)" and y: "y \<in> set (shapeRefsById w)"
      and eq: "f' x = f' y"
    have "f x = f y"
    proof (cases "snd x = a")
      case True
      show ?thesis
      proof (cases "snd y = a")
        case True
        with \<open>snd x = a\<close> show ?thesis by (simp add: f_def)
      next
        case False
        with True eq old[OF y] show ?thesis by (simp add: f')
      qed
    next
      case False
      show ?thesis
      proof (cases "snd y = a")
        case True
        with False eq old[OF x] show ?thesis by (simp add: f')
      next
        case False
        with \<open>snd x \<noteq> a\<close> eq show ?thesis by (simp add: f')
      qed
    qed
    from inj_onD[OF inj this x y] show "x = y" .
  qed
  with dist have "distinct (map f' (shapeRefsById w))" by (simp add: distinct_map)
  then show "distinct (map (\<lambda>entry. renderedElement (heap w' (snd entry))) (shapeRefsById w'))"
    by (simp add: f'_def tab)
  show "distinct (map fst (shapeRefsById w'))"
    using consistent_keys[OF c] tab by simp
  show "registeredRef d w' (snd entry)" if "entry \<in> set (shapeRefsById w')" for entry
  proof -
    from that tab have "registeredRef d w (snd entry)"
      using consistent_registered[OF c, of entry] by simp
    then show ?thesis by (auto simp: registeredRef_iff hp nr ne)
  qed
  show "e < nextElement w'" if "e \<in> set (children w' d)" for e
    using ch[OF that] ne by simp
qed

lemma consistent_alloc:
  assumes c: "refsConsistent d w"
    and k: "map_of (shapeRefsById w) k = None"
    and tab: "shapeRefsById w' = shapeRefsById w @ [(k, nextRef w)]"
    and hp: "heap w' = (heap w)(nextRef w :=
                  \<lparr>doc = d, renderer = Some r, showDebugMarkers = dbg,
                   shape = sh, renderedElement = Some (nextElement w)\<rparr>)"
    and nr: "nextRef w' = Suc (nextRef w)"
    and ne: "nextElement w' = Suc (nextElement w)"
    and ch: "\<And>e. e \<in> set (children w' d) \<Longrightarrow> e \<le> nextElement w"
  shows "refsConsistent d w'"
proof (rule refsConsistentI)
  define f where "f = (\<lambda>entry :: string \<times> RefAddr. renderedElement (heap w (snd entry)))"
  define f' where "f' = (\<lambda>entry :: string \<times> RefAddr. renderedElement (heap w' (snd entry)))"
  have reg: "snd entry < nextRef w \<and> doc (heap w (snd entry)) = d
      \<and> (\<exists>r. renderer (heap w (snd entry)) = Some r)
      \<and> (\<exists>e. renderedElement (heap w (snd entry)) = Some e \<and> e < nextElement w)"
    if "entry \<in> set (shapeRefsById w)" for entry
    using consistent_registered[OF c that] by (simp add: registeredRef_iff)
  have old: "f' entry = f entry \<and> f entry \<noteq> Some (nextElement w)"
    if "entry \<in> set (shapeRefsById w)" for entry
    using reg[OF that] by (auto simp: f_def f'_def hp)
  have same: "map f' (shapeRefsById w) = map f (shapeRefsById w)"
    by (rule map_cong[OF refl]) (simp add: old)
  have dist: "distinct (map f (shapeRefsById w))"
    using consistent_elements[OF c] by (simp add: f_def)
  have fresh: "Some (nextElement w) \<notin> set (map f (shapeRefsById w))"
  proof
    assume "Some (nextElement w) \<in> set (map f (shapeRefsById w))"
    then obtain entry where "entry \<in> set (shapeRefsById w)" "f entry = Some (nextElement w)"
      by (auto simp: image_iff)
    with old[of entry] show False by simp
  qed
  have new: "f' (k, nextRef w) = Some (nextElement w)" by (simp add: f'_def hp)
  have "map f' (shapeRefsById w') = map f (shapeRefsById w) @ [Some (nextElement w)]"
    unfolding tab map_append same using new by simp
  with dist fresh have "distinct (map f' (shapeRefsById w'))" by simp
  then show "distinct (map (\<lambda>entry. renderedElement (heap w' (snd entry))) (shapeRefsById w'))"
    unfolding f'_def .
  from k have "k \<notin> fst ` set (shapeRefsById w)" by (simp add: map_of_eq_None_iff)
  with consistent_keys[OF c] show "distinct (map fst (shapeRefsById w'))" by (simp add: tab)
  show "registeredRef d w' (snd entry)" if "entry \<in> set (shapeRefsById w')" for entry
  proof (cases "entry \<in> set (shapeRefsById w)")
    case True
    from reg[OF this] show ?thesis by (auto simp: registeredRef_iff hp nr ne)
  next
    case False
    with that tab have "entry = (k, nextRef w)" by simp
    then show ?thesis by (simp add: registeredRef_iff hp nr ne)
  qed
  show "e < nextElement w'" if "e \<in> set (children w' d)" for e
    using ch[OF that] ne by simp
qed

lemma renderShape_Inr_cases:
  assumes ok: "renderShape props d s w = Inr w'"
  obtains
    (cheap) a e where "map_of (shapeRefsById w) (shapeId s) = Some a"
      "shape (heap w a) = Some s" "renderedElement (heap w a) = Some e"
      "w' = w\<lparr>children := (\<lambda>d'. if d' = doc (heap w a) then removeAll e (children w d') @ [e]
                                else removeAll e (children w d')),
               shapeRefsByRenderElement := AList.update e a (shapeRefsByRenderElement w)\<rparr>"
  | (again) a r where "map_of (shapeRefsById w) (shapeId s) = Some a"
      "mustRender a s w" "renderer (heap w a) = Some r"
      "w' = w\<lparr>rendererContext := (rendererContext w)(r \<mapsto> doc (heap w a)),
            calls := calls w @ [SetContext r (doc (heap w a)), Render r s (showDebugMarkers (heap w a))],
            children := (children w)(doc (heap w a) := children w (doc (heap w a)) @ [nextElement w]),
            nextElement := Suc (nextElement w),
            heap := (heap w)(a := (heap w a)\<lparr>renderedElement := Some (nextElement w), shape := Some s\<rparr>),
            shapeRefsByRenderElement := AList.update (nextElement w) a (shapeRefsByRenderElement w)\<rparr>"
  | (new) r where "map_of (shapeRefsById w) (shapeId s) = None"
      "registeredRenderers props (rendererKey s) = Some r"
      "w' = w\<lparr>rendererContext := (rendererContext w)(r \<mapsto> d),
            calls := calls w @ [SetContext r d, Render r s (\<not> isProduction props)],
            children := (children w)(d := children w d @ [nextElement w]),
            nextElement := Suc (nextElement w),
            heap := (heap w)(nextRef w :=
                      \<lparr>doc = d, renderer = Some r, showDebugMarkers = \<not> isProduction props,
                       shape = Some s, renderedElement = Some (nextElement w)\<rparr>),
            nextRef := Suc (nextRef w),
            shapeRefsByRenderElement := AList.update (nextElement w) (nextRef w) (shapeRefsByRenderElement w),
            shapeRefsById := shapeRefsById w @ [(shapeId s, nextRef w)]\<rparr>"
proof (cases "map_of (shapeRefsById w) (shapeId s)")
  case None
  show thesis
  proof (cases "registeredRenderers props (rendererKey s)")
    case unregistered: None
    from renderShape_unresolved[OF None unregistered, of d] ok show thesis by simp
  next
    case (Some r)
    from renderShape_new[OF None Some, of d] ok new[OF None Some] show thesis by simp
  qed
next
  case (Some a)
  show thesis
  proof (cases "mustRender a s w")
    case True
    show thesis
    proof (cases "renderer (heap w a)")
      case None
      from renderShape_lost_renderer[OF Some True None, of props d] ok show thesis by simp
    next
      case r: (Some r)
      from renderShape_again[OF Some True r, of props d] ok again[OF Some True r] show thesis by simp
    qed
  next
    case False
    then obtain e where e: "shape (heap w a) = Some s" "renderedElement (heap w a) = Some e"
      by (auto simp: mustRender_def)
    from renderShape_cheap[OF Some e, of props d] ok cheap[OF Some e] show thesis by simp
  qed
qed

lemma map_of_update: "map_of (AList.update k v al) = (map_of al)(k \<mapsto> v)"
  by (rule AList.update_conv')

lemma map_of_snoc_absent:
  "map_of al k = None \<Longrightarrow> map_of (al @ [(k, v)]) = (map_of al)(k \<mapsto> v)"
  by (auto simp: fun_eq_iff map_add_def split: option.splits)

lemma removeAll_fresh: "\<forall>x \<in> set xs. x < (n::nat) \<Longrightarrow> removeAll n xs = xs"
  by (induction xs) auto

text \<open>What one successful run of the loop body does to a consistent state.\<close>

lemma renderShape_step:
  assumes c: "refsConsistent d w" and ok: "renderShape props d s w = Inr w'"
  obtains a e where
    "map_of (shapeRefsById w') = (map_of (shapeRefsById w))(shapeId s \<mapsto> a)"
    "map_of (shapeRefsByRenderElement w') = (map_of (shapeRefsByRenderElement w))(e \<mapsto> a)"
    "renderedElement (heap w' a) = Some e" "shape (heap w' a) = Some s"
    "\<And>b. b \<noteq> a \<Longrightarrow> heap w' b = heap w b"
    "\<And>k b. map_of (shapeRefsById w) k = Some b \<Longrightarrow> k \<noteq> shapeId s \<Longrightarrow> b \<noteq> a"
    "children w' d = removeAll e (children w d) @ [e]"
    "diagramDoc w' = diagramDoc w"
    "refsConsistent d w'"
    "(map_of (shapeRefsById w) (shapeId s) = Some a \<and> shape (heap w a) = Some s
        \<and> renderedElement (heap w a) = Some e \<and> calls w' = calls w \<and> heap w' = heap w
        \<and> nextElement w' = nextElement w)
     \<or> (e = nextElement w \<and> nextElement w' = Suc (nextElement w)
        \<and> (\<exists>r dbg. calls w' = calls w @ [SetContext r d, Render r s dbg])
        \<and> lastShape w (shapeId s) \<noteq> Some s)"
proof -
  from ok show thesis
  proof (cases rule: renderShape_Inr_cases)
  case (cheap a e)
  note w' = cheap(4)
  from consistent_lookup[OF c cheap(1)] have reg: "doc (heap w a) = d" "e < nextElement w"
    using cheap(3) by (auto simp: registeredRef_iff)
  have others: "b \<noteq> a" if "map_of (shapeRefsById w) k = Some b" "k \<noteq> shapeId s" for k b
    using consistent_owner[OF c that(1) cheap(1)] that(2) by auto
  have cons: "refsConsistent d w'"
  proof (rule consistent_frame[OF c])
    fix x assume "x \<in> set (children w' d)"
    then have "x = e \<or> x \<in> set (children w d)" by (auto simp: w' split: if_splits)
    with reg consistent_children[OF c] show "x < nextElement w" by auto
  qed (simp_all add: w')
  show thesis
  proof (rule that[of a e])
    show "children w' d = removeAll e (children w d) @ [e]" by (simp add: w' reg)
    show "refsConsistent d w'" by (rule cons)
  qed (use cheap(1-3) others in \<open>simp_all add: w' map_of_update map_upd_triv\<close>)
next
  case (again a r)
  note w' = again(4)
  from consistent_lookup[OF c again(1)] obtain e0 where
    reg: "doc (heap w a) = d" "renderedElement (heap w a) = Some e0"
    by (auto simp: registeredRef_iff)
  with again(2) have changed: "shape (heap w a) \<noteq> Some s" by (simp add: mustRender_def)
  have others: "b \<noteq> a" if "map_of (shapeRefsById w) k = Some b" "k \<noteq> shapeId s" for k b
    using consistent_owner[OF c that(1) again(1)] that(2) by auto
  have fresh: "removeAll (nextElement w) (children w d) = children w d"
    using consistent_children[OF c] by (intro removeAll_fresh) blast
  have cons: "refsConsistent d w'"
  proof (rule consistent_rerender[OF c, where a = a and sh = "Some s"])
    fix x assume "x \<in> set (children w' d)"
    then have "x = nextElement w \<or> x \<in> set (children w d)" by (auto simp: w' reg)
    with consistent_children[OF c] show "x \<le> nextElement w" by (auto dest: less_imp_le)
  qed (simp_all add: w')
  show thesis
  proof (rule that[of a "nextElement w"])
    show "children w' d = removeAll (nextElement w) (children w d) @ [nextElement w]"
      by (simp add: w' reg fresh)
    show "refsConsistent d w'" by (rule cons)
    show "(map_of (shapeRefsById w) (shapeId s) = Some a \<and> shape (heap w a) = Some s
        \<and> renderedElement (heap w a) = Some (nextElement w) \<and> calls w' = calls w \<and> heap w' = heap w
        \<and> nextElement w' = nextElement w)
     \<or> (nextElement w = nextElement w \<and> nextElement w' = Suc (nextElement w)
        \<and> (\<exists>r dbg. calls w' = calls w @ [SetContext r d, Render r s dbg])
        \<and> lastShape w (shapeId s) \<noteq> Some s)"
      using changed again(1) by (simp add: w' reg lastShape_def)
  qed (use again(1) others in \<open>simp_all add: w' map_of_update map_upd_triv\<close>)
next
  case (new r)
  note w' = new(3)
  have others: "b \<noteq> nextRef w" if "map_of (shapeRefsById w) k = Some b" for k b
    using consistent_lookup[OF c that] by (auto simp: registeredRef_iff)
  have fresh: "removeAll (nextElement w) (children w d) = children w d"
    using consistent_children[OF c] by (intro removeAll_fresh) blast
  have cons: "refsConsistent d w'"
  proof (rule consistent_alloc[OF c new(1), where r = r and sh = "Some s" and dbg = "\<not> isProduction props"])
    fix x assume "x \<in> set (children w' d)"
    then have "x = nextElement w \<or> x \<in> set (children w d)" by (auto simp: w')
    with consistent_children[OF c] show "x \<le> nextElement w" by (auto dest: less_imp_le)
  qed (simp_all add: w')
  show thesis
  proof (rule that[of "nextRef w" "nextElement w"])
    show "children w' d = removeAll (nextElement w) (children w d) @ [nextElement w]"
      by (simp add: w' fresh)
    show "refsConsistent d w'" by (rule cons)
    show "map_of (shapeRefsById w') = (map_of (shapeRefsById w))(shapeId s \<mapsto> nextRef w)"
      using map_of_snoc_absent[OF new(1)] by (simp add: w')
    show "(map_of (shapeRefsById w) (shapeId s) = Some (nextRef w) \<and> shape (heap w (nextRef w)) = Some s
        \<and> renderedElement (heap w (nextRef w)) = Some (nextElement w) \<and> calls w' = calls w \<and> heap w' = heap w
        \<and> nextElement w' = nextElement w)
     \<or> (nextElement w = nextElement w \<and> nextElement w' = Suc (nextElement w)
        \<and> (\<exists>r dbg. calls w' = calls w @ [SetContext r d, Render r s dbg])
        \<and> lastShape w (shapeId s) \<noteq> Some s)"
      using new(1) by (simp add: w' lastShape_def)
  qed (use others in \<open>simp_all add: w' map_of_update\<close>)
qed
qed

subsection \<open>The first loop\<close>

lemma ShapeRef_remove_fields [simp]:
  "heap (ShapeRef_remove a w) = heap w"
  "calls (ShapeRef_remove a w) = calls w"
  "nextRef (ShapeRef_remove a w) = nextRef w"
  "nextElement (ShapeRef_remove a w) = nextElement w"
  "diagramDoc (ShapeRef_remove a w) = diagramDoc w"
  "rendererContext (ShapeRef_remove a w) = rendererContext w"
  "shapeRefsById (ShapeRef_remove a w) = shapeRefsById w"
  "shapeRefsByRenderElement (ShapeRef_remove a w) = shapeRefsByRenderElement w"
  by (simp_all add: ShapeRef_remove_def Element_remove_def split: option.splits)

lemma ShapeRef_remove_children:
  "children (ShapeRef_remove a w) d =
     filter (\<lambda>x. renderedElement (heap w a) \<noteq> Some x) (children w d)"
  by (cases "renderedElement (heap w a)")
    (auto simp: ShapeRef_remove_def Element_remove_def removeAll_filter_not_eq intro: filter_cong)

text \<open>The elements of the refs registered under the keys \<open>ks\<close>, and those of the stale keys.\<close>

lemma pruneRefs_frame:
  "pruneRefs live ks w = Inr w' \<Longrightarrow>
     heap w' = heap w \<and> calls w' = calls w \<and> nextRef w' = nextRef w \<and>
     nextElement w' = nextElement w \<and> diagramDoc w' = diagramDoc w \<and>
     rendererContext w' = rendererContext w"
proof (induction ks arbitrary: w)
  case Nil
  then show ?case by simp
next
  case (Cons i ks)
  show ?case
  proof (cases "map_of (shapeRefsById w) i")
    case None
    with Cons.prems Cons.IH[of w] show ?thesis by simp
  next
    case (Some ref)
    show ?thesis
    proof (cases "live i = Some True")
      case True
      with Some Cons.prems Cons.IH[of "ShapeRef_remove ref w"] show ?thesis by simp
    next
      case False
      show ?thesis
      proof (cases "renderedElement (heap w ref)")
        case None
        with Some False Cons.prems show ?thesis by (simp add: Let_def renderId_def)
      next
        case (Some e)
        let ?w3 = "(ShapeRef_remove ref w)
                     \<lparr>shapeRefsById := AList.delete i (shapeRefsById w),
                      shapeRefsByRenderElement := AList.delete e (shapeRefsByRenderElement w)\<rparr>"
        from Some False \<open>map_of (shapeRefsById w) i = Some ref\<close> Cons.prems
        have "pruneRefs live ks ?w3 = Inr w'" by (simp add: Let_def renderId_def)
        from Cons.IH[OF this] show ?thesis by simp
      qed
    qed
  qed
qed

lemma pruneRefs_byId:
  "pruneRefs live ks w = Inr w' \<Longrightarrow>
     shapeRefsById w' =
       filter (\<lambda>entry. fst entry \<in> set ks \<longrightarrow> live (fst entry) = Some True) (shapeRefsById w)"
proof (induction ks arbitrary: w)
  case Nil
  then show ?case by simp
next
  case (Cons i ks)
  show ?case
  proof (cases "map_of (shapeRefsById w) i")
    case None
    then have "fst entry \<noteq> i" if "entry \<in> set (shapeRefsById w)" for entry
      using that by (auto simp: map_of_eq_None_iff)
    then have "filter (\<lambda>entry. fst entry \<in> set (i # ks) \<longrightarrow> live (fst entry) = Some True) (shapeRefsById w)
         = filter (\<lambda>entry. fst entry \<in> set ks \<longrightarrow> live (fst entry) = Some True) (shapeRefsById w)"
      by (intro filter_cong) auto
    with None Cons.prems Cons.IH[of w] show ?thesis by simp
  next
    case (Some ref)
    show ?thesis
    proof (cases "live i = Some True")
      case True
      then have "filter (\<lambda>entry. fst entry \<in> set (i # ks) \<longrightarrow> live (fst entry) = Some True) (shapeRefsById w)
         = filter (\<lambda>entry. fst entry \<in> set ks \<longrightarrow> live (fst entry) = Some True) (shapeRefsById w)"
        by (intro filter_cong) auto
      with True Some Cons.prems Cons.IH[of "ShapeRef_remove ref w"] show ?thesis by simp
    next
      case False
      show ?thesis
      proof (cases "renderedElement (heap w ref)")
        case None
        with Some False Cons.prems show ?thesis by (simp add: Let_def renderId_def)
      next
        case (Some e)
        let ?w3 = "(ShapeRef_remove ref w)
                     \<lparr>shapeRefsById := AList.delete i (shapeRefsById w),
                      shapeRefsByRenderElement := AList.delete e (shapeRefsByRenderElement w)\<rparr>"
        from Some False \<open>map_of (shapeRefsById w) i = Some ref\<close> Cons.prems
        have "pruneRefs live ks ?w3 = Inr w'" by (simp add: Let_def renderId_def)
        from Cons.IH[OF this] have "shapeRefsById w' =
            filter (\<lambda>entry. fst entry \<in> set ks \<longrightarrow> live (fst entry) = Some True)
              (AList.delete i (shapeRefsById w))"
          by simp
        also have "\<dots> = filter (\<lambda>entry. fst entry \<in> set (i # ks) \<longrightarrow> live (fst entry) = Some True)
              (shapeRefsById w)"
          using False unfolding AList.delete_eq filter_filter
          by (intro filter_cong) auto
        finally show ?thesis .
      qed
    qed
  qed
qed

lemma pruneRefs_children:
  "pruneRefs live ks w = Inr w' \<Longrightarrow>
     children w' d =
       filter (\<lambda>x. \<forall>k \<in> set ks. \<forall>a. map_of (shapeRefsById w) k = Some a
                        \<longrightarrow> renderedElement (heap w a) \<noteq> Some x) (children w d)"
proof (induction ks arbitrary: w)
  case Nil
  then show ?case by simp
next
  case (Cons i ks)
  show ?case
  proof (cases "map_of (shapeRefsById w) i")
    case None
    with Cons.prems Cons.IH[of w] show ?thesis by simp
  next
    case (Some ref)
    show ?thesis
    proof (cases "live i = Some True")
      case True
      with Some Cons.prems have "pruneRefs live ks (ShapeRef_remove ref w) = Inr w'" by simp
      from Cons.IH[OF this] have "children w' d =
          filter (\<lambda>x. \<forall>k \<in> set ks. \<forall>a. map_of (shapeRefsById w) k = Some a
                        \<longrightarrow> renderedElement (heap w a) \<noteq> Some x)
            (filter (\<lambda>x. renderedElement (heap w ref) \<noteq> Some x) (children w d))"
        by (simp add: ShapeRef_remove_children)
      also have "\<dots> = filter (\<lambda>x. \<forall>k \<in> set (i # ks). \<forall>a. map_of (shapeRefsById w) k = Some a
                        \<longrightarrow> renderedElement (heap w a) \<noteq> Some x) (children w d)"
        unfolding filter_filter using Some by (intro filter_cong) auto
      finally show ?thesis .
    next
      case False
      show ?thesis
      proof (cases "renderedElement (heap w ref)")
        case None
        with Some False Cons.prems show ?thesis by (simp add: Let_def renderId_def)
      next
        case el: (Some e)
        let ?w3 = "(ShapeRef_remove ref w)
                     \<lparr>shapeRefsById := AList.delete i (shapeRefsById w),
                      shapeRefsByRenderElement := AList.delete e (shapeRefsByRenderElement w)\<rparr>"
        from el False Some Cons.prems
        have "pruneRefs live ks ?w3 = Inr w'" by (simp add: Let_def renderId_def)
        from Cons.IH[OF this] have "children w' d =
          filter (\<lambda>x. \<forall>k \<in> set ks. \<forall>a. map_of (AList.delete i (shapeRefsById w)) k = Some a
                        \<longrightarrow> renderedElement (heap w a) \<noteq> Some x)
            (filter (\<lambda>x. renderedElement (heap w ref) \<noteq> Some x) (children w d))"
          by (simp add: ShapeRef_remove_children)
        also have "\<dots> = filter (\<lambda>x. \<forall>k \<in> set (i # ks). \<forall>a. map_of (shapeRefsById w) k = Some a
                        \<longrightarrow> renderedElement (heap w a) \<noteq> Some x) (children w d)"
          unfolding filter_filter using Some
          by (intro filter_cong) (auto simp: AList.delete_conv split: if_splits)
        finally show ?thesis .
      qed
    qed
  qed
qed

lemma pruneRefs_byElement:
  "pruneRefs live ks w = Inr w' \<Longrightarrow>
     shapeRefsByRenderElement w' =
       filter (\<lambda>entry. \<forall>k \<in> set ks. live k \<noteq> Some True \<longrightarrow>
                 (\<forall>a. map_of (shapeRefsById w) k = Some a
                        \<longrightarrow> renderedElement (heap w a) \<noteq> Some (fst entry)))
         (shapeRefsByRenderElement w)"
proof (induction ks arbitrary: w)
  case Nil
  then show ?case by simp
next
  case (Cons i ks)
  show ?case
  proof (cases "map_of (shapeRefsById w) i")
    case None
    with Cons.prems Cons.IH[of w] show ?thesis by simp
  next
    case (Some ref)
    show ?thesis
    proof (cases "live i = Some True")
      case True
      with Some Cons.prems have "pruneRefs live ks (ShapeRef_remove ref w) = Inr w'" by simp
      from Cons.IH[OF this] True show ?thesis by simp
    next
      case False
      show ?thesis
      proof (cases "renderedElement (heap w ref)")
        case None
        with Some False Cons.prems show ?thesis by (simp add: Let_def renderId_def)
      next
        case el: (Some e)
        let ?w3 = "(ShapeRef_remove ref w)
                     \<lparr>shapeRefsById := AList.delete i (shapeRefsById w),
                      shapeRefsByRenderElement := AList.delete e (shapeRefsByRenderElement w)\<rparr>"
        from el False Some Cons.prems
        have "pruneRefs live ks ?w3 = Inr w'" by (simp add: Let_def renderId_def)
        from Cons.IH[OF this] have "shapeRefsByRenderElement w' =
          filter (\<lambda>entry. \<forall>k \<in> set ks. live k \<noteq> Some True \<longrightarrow>
                 (\<forall>a. map_of (AList.delete i (shapeRefsById w)) k = Some a
                        \<longrightarrow> renderedElement (heap w a) \<noteq> Some (fst entry)))
            (filter (\<lambda>entry. e \<noteq> fst entry) (shapeRefsByRenderElement w))"
          by (simp add: AList.delete_eq case_prod_beta)
        also have "\<dots> = filter (\<lambda>entry. \<forall>k \<in> set (i # ks). live k \<noteq> Some True \<longrightarrow>
                 (\<forall>a. map_of (shapeRefsById w) k = Some a
                        \<longrightarrow> renderedElement (heap w a) \<noteq> Some (fst entry)))
              (shapeRefsByRenderElement w)"
          unfolding filter_filter using Some el False
          by (intro filter_cong) (auto simp: AList.delete_conv split: if_splits)
        finally show ?thesis .
      qed
    qed
  qed
qed

text \<open>From a consistent state the first loop does not throw, and leaves a consistent state.\<close>

lemma pruneRefs_returns:
  assumes "\<forall>k \<in> set ks. \<forall>a. map_of (shapeRefsById w) k = Some a \<longrightarrow> renderedElement (heap w a) \<noteq> None"
  shows "\<exists>w'. pruneRefs live ks w = Inr w'"
  using assms
proof (induction ks arbitrary: w)
  case Nil
  show ?case by simp
next
  case (Cons i ks)
  show ?case
  proof (cases "map_of (shapeRefsById w) i")
    case None
    with Cons.IH[of w] Cons.prems show ?thesis by simp
  next
    case (Some ref)
    with Cons.prems obtain e where el: "renderedElement (heap w ref) = Some e" by auto
    show ?thesis
    proof (cases "live i = Some True")
      case True
      with Some Cons.IH[of "ShapeRef_remove ref w"] Cons.prems show ?thesis by simp
    next
      case False
      let ?w3 = "(ShapeRef_remove ref w)
                     \<lparr>shapeRefsById := AList.delete i (shapeRefsById w),
                      shapeRefsByRenderElement := AList.delete e (shapeRefsByRenderElement w)\<rparr>"
      have "\<forall>k \<in> set ks. \<forall>a. map_of (shapeRefsById ?w3) k = Some a \<longrightarrow> renderedElement (heap ?w3 a) \<noteq> None"
        using Cons.prems by (auto simp: AList.delete_conv split: if_splits)
      from Cons.IH[OF this] el False Some show ?thesis by (simp add: Let_def renderId_def)
    qed
  qed
qed

lemma pruneRefs_consistent:
  assumes c: "refsConsistent d w" and ok: "pruneRefs live ks w = Inr w'"
  shows "refsConsistent d w'"
proof (rule refsConsistentI)
  note fr = pruneRefs_frame[OF ok] and tab = pruneRefs_byId[OF ok]
  show "distinct (map fst (shapeRefsById w'))"
    unfolding tab using consistent_keys[OF c] by (rule distinct_map_filter)
  show "distinct (map (\<lambda>entry. renderedElement (heap w' (snd entry))) (shapeRefsById w'))"
    unfolding tab using consistent_elements[OF c] fr by (simp add: distinct_map_filter)
  show "registeredRef d w' (snd entry)" if "entry \<in> set (shapeRefsById w')" for entry
  proof -
    from that have "entry \<in> set (shapeRefsById w)" by (simp add: tab)
    from consistent_registered[OF c this] fr show ?thesis by (simp add: registeredRef_iff)
  qed
  show "e < nextElement w'" if "e \<in> set (children w' d)" for e
  proof -
    from that have "e \<in> set (children w d)" by (simp add: pruneRefs_children[OF ok])
    from consistent_children[OF c this] fr show ?thesis by simp
  qed
qed

lemma consistent_returns:
  assumes c: "refsConsistent d w"
  shows "\<exists>w'. pruneRefs live ks w = Inr w'"
proof (rule pruneRefs_returns, intro ballI allI impI)
  fix k a assume "map_of (shapeRefsById w) k = Some a"
  from consistent_lookup[OF c this] show "renderedElement (heap w a) \<noteq> None"
    by (auto simp: registeredRef_iff)
qed

lemma allShapesById_fold:
  "fold (\<lambda>item m. m(shapeId item \<mapsto> True)) xs m k = Some True
     \<longleftrightarrow> k \<in> shapeId ` set xs \<or> m k = Some True"
  by (induction xs arbitrary: m) auto

lemma allShapesById_iff: "allShapesById xs k = Some True \<longleftrightarrow> k \<in> shapeId ` set xs"
  by (simp add: allShapesById_def allShapesById_fold)

subsection \<open>The state by shape id\<close>

lemma renderShape_views:
  assumes c: "refsConsistent d w" and ok: "renderShape props d t w = Inr w'"
  obtains e where
    "elementOf w' = (elementOf w)(shapeId t \<mapsto> e)"
    "lastShape w' = (lastShape w)(shapeId t \<mapsto> t)"
    "children w' d = removeAll e (children w d) @ [e]"
    "drawn d w' (shapeId t)"
    "\<And>k. drawn d w k \<Longrightarrow> drawn d w' k"
    "refsConsistent d w'"
    "fst ` set (shapeRefsById w') = insert (shapeId t) (fst ` set (shapeRefsById w))"
    "\<exists>a. map_of (shapeRefsByRenderElement w') = (map_of (shapeRefsByRenderElement w))(e \<mapsto> a)"
    "(lastShape w (shapeId t) = Some t \<and> elementOf w (shapeId t) = Some e \<and> calls w' = calls w
        \<and> heap w' = heap w \<and> nextElement w' = nextElement w)
     \<or> (lastShape w (shapeId t) \<noteq> Some t \<and> e = nextElement w \<and> nextElement w' = Suc (nextElement w)
        \<and> (\<exists>r dbg. calls w' = calls w @ [SetContext r d, Render r t dbg]))"
proof -
  from c ok obtain a e where
    byId: "map_of (shapeRefsById w') = (map_of (shapeRefsById w))(shapeId t \<mapsto> a)" and
    byEl: "map_of (shapeRefsByRenderElement w') = (map_of (shapeRefsByRenderElement w))(e \<mapsto> a)" and
    el: "renderedElement (heap w' a) = Some e" and sh: "shape (heap w' a) = Some t" and
    others: "\<And>b. b \<noteq> a \<Longrightarrow> heap w' b = heap w b" and
    apart: "\<And>k b. map_of (shapeRefsById w) k = Some b \<Longrightarrow> k \<noteq> shapeId t \<Longrightarrow> b \<noteq> a" and
    ch: "children w' d = removeAll e (children w d) @ [e]" and
    c': "refsConsistent d w'" and
    how: "(map_of (shapeRefsById w) (shapeId t) = Some a \<and> shape (heap w a) = Some t
        \<and> renderedElement (heap w a) = Some e \<and> calls w' = calls w \<and> heap w' = heap w
        \<and> nextElement w' = nextElement w)
     \<or> (e = nextElement w \<and> nextElement w' = Suc (nextElement w)
        \<and> (\<exists>r dbg. calls w' = calls w @ [SetContext r d, Render r t dbg])
        \<and> lastShape w (shapeId t) \<noteq> Some t)"
    by (rule renderShape_step) blast
  have same: "heap w' b = heap w b" if "map_of (shapeRefsById w) k = Some b" "k \<noteq> shapeId t" for k b
    using others[OF apart[OF that]] .
  have v1: "elementOf w' k = ((elementOf w)(shapeId t \<mapsto> e)) k" for k
  proof (cases "k = shapeId t")
    case True
    then show ?thesis by (simp add: elementOf_def byId el)
  next
    case False
    then show ?thesis
      by (cases "map_of (shapeRefsById w) k") (simp_all add: elementOf_def byId same)
  qed
  have v2: "lastShape w' k = ((lastShape w)(shapeId t \<mapsto> t)) k" for k
  proof (cases "k = shapeId t")
    case True
    then show ?thesis by (simp add: lastShape_def byId sh)
  next
    case False
    then show ?thesis
      by (cases "map_of (shapeRefsById w) k") (simp_all add: lastShape_def byId same)
  qed
  have d1: "drawn d w' (shapeId t)"
    by (simp add: drawn_def byId el byEl ch)
  have d2: "drawn d w' k" if dr: "drawn d w k" for k
  proof (cases "k = shapeId t")
    case True
    with d1 show ?thesis by simp
  next
    case False
    from dr obtain b x where b: "map_of (shapeRefsById w) k = Some b"
      and x: "renderedElement (heap w b) = Some x"
      and reg: "map_of (shapeRefsByRenderElement w) x = Some b" "x \<in> set (children w d)"
      by (auto simp: drawn_def split: option.splits)
    have "x \<noteq> e"
    proof
      assume "x = e"
      from how show False
      proof
        assume cheap: "map_of (shapeRefsById w) (shapeId t) = Some a \<and> shape (heap w a) = Some t
          \<and> renderedElement (heap w a) = Some e \<and> calls w' = calls w \<and> heap w' = heap w
          \<and> nextElement w' = nextElement w"
        with x \<open>x = e\<close> have "renderedElement (heap w b) = renderedElement (heap w a)" by simp
        from consistent_owner[OF c b _ this] cheap False show False by simp
      next
        assume "e = nextElement w \<and> nextElement w' = Suc (nextElement w)
          \<and> (\<exists>r dbg. calls w' = calls w @ [SetContext r d, Render r t dbg])
          \<and> lastShape w (shapeId t) \<noteq> Some t"
        with consistent_lookup[OF c b] x \<open>x = e\<close> show False by (simp add: registeredRef_iff)
      qed
    qed
    with False b x reg show ?thesis
      by (simp add: drawn_def byId same[OF b False] byEl ch)
  qed
  have keys: "fst ` set (shapeRefsById w') = insert (shapeId t) (fst ` set (shapeRefsById w))"
  proof -
    have "dom (map_of (shapeRefsById w')) = insert (shapeId t) (dom (map_of (shapeRefsById w)))"
      by (simp add: byId)
    then show ?thesis by (simp add: dom_map_of_conv_image_fst)
  qed
  have h: "(lastShape w (shapeId t) = Some t \<and> elementOf w (shapeId t) = Some e \<and> calls w' = calls w
        \<and> heap w' = heap w \<and> nextElement w' = nextElement w)
     \<or> (lastShape w (shapeId t) \<noteq> Some t \<and> e = nextElement w \<and> nextElement w' = Suc (nextElement w)
        \<and> (\<exists>r dbg. calls w' = calls w @ [SetContext r d, Render r t dbg]))"
    using how by (auto simp: lastShape_def elementOf_def)
  show thesis
  proof (rule that[of e])
    from byEl show "\<exists>a. map_of (shapeRefsByRenderElement w') = (map_of (shapeRefsByRenderElement w))(e \<mapsto> a)"
      by (rule exI)
  qed (use v1 v2 ch d1 d2 c' keys h in \<open>auto simp: fun_eq_iff\<close>)
qed

subsection \<open>The second loop\<close>

lemma renderedShapes_append [simp]:
  "renderedShapes (cs @ cs') = renderedShapes cs @ renderedShapes cs'"
  by (induction cs rule: renderedShapes.induct) simp_all

lemma renderShapes_summary:
  assumes "refsConsistent d w" "renderShapes props d xs w = Inr w'"
  shows "refsConsistent d w'
    \<and> (\<forall>k. k \<notin> shapeId ` set xs \<longrightarrow> lastShape w' k = lastShape w k \<and> elementOf w' k = elementOf w k)
    \<and> (\<forall>k. drawn d w k \<longrightarrow> drawn d w' k)
    \<and> (\<forall>s \<in> set xs. drawn d w' (shapeId s))
    \<and> fst ` set (shapeRefsById w') = fst ` set (shapeRefsById w) \<union> shapeId ` set xs
    \<and> nextElement w \<le> nextElement w'
    \<and> (\<exists>cs. calls w' = calls w @ cs \<and> set (renderedShapes cs) \<subseteq> set xs)"
  using assms
proof (induction xs arbitrary: w)
  case Nil
  then show ?case by simp
next
  case (Cons t xs)
  from Cons.prems(2) obtain w1 where step: "renderShape props d t w = Inr w1"
    and rest: "renderShapes props d xs w1 = Inr w'"
    by (auto split: sum.splits)
  from Cons.prems(1) step obtain e where
    v: "elementOf w1 = (elementOf w)(shapeId t \<mapsto> e)" "lastShape w1 = (lastShape w)(shapeId t \<mapsto> t)"
    and d1: "drawn d w1 (shapeId t)" and d2: "\<And>k. drawn d w k \<Longrightarrow> drawn d w1 k"
    and c1: "refsConsistent d w1"
    and keys: "fst ` set (shapeRefsById w1) = insert (shapeId t) (fst ` set (shapeRefsById w))"
    and how: "(lastShape w (shapeId t) = Some t \<and> elementOf w (shapeId t) = Some e \<and> calls w1 = calls w
        \<and> heap w1 = heap w \<and> nextElement w1 = nextElement w)
     \<or> (lastShape w (shapeId t) \<noteq> Some t \<and> e = nextElement w \<and> nextElement w1 = Suc (nextElement w)
        \<and> (\<exists>r dbg. calls w1 = calls w @ [SetContext r d, Render r t dbg]))"
    by (rule renderShape_views) blast
  note IH = Cons.IH[OF c1 rest]
  note ih_frame = IH[THEN conjunct2, THEN conjunct1, rule_format]
  note ih_drawn = IH[THEN conjunct2, THEN conjunct2, THEN conjunct1, rule_format]
  note ih_drawn' = IH[THEN conjunct2, THEN conjunct2, THEN conjunct2, THEN conjunct1, rule_format]
  note ih_keys = IH[THEN conjunct2, THEN conjunct2, THEN conjunct2, THEN conjunct2, THEN conjunct1]
  note ih_mono = IH[THEN conjunct2, THEN conjunct2, THEN conjunct2, THEN conjunct2, THEN conjunct2,
      THEN conjunct1]
  note ih_calls = IH[THEN conjunct2, THEN conjunct2, THEN conjunct2, THEN conjunct2, THEN conjunct2,
      THEN conjunct2]
  from how have ne: "nextElement w \<le> nextElement w1" by (elim disjE conjE) simp_all
  have "\<exists>cs. calls w1 = calls w @ cs \<and> set (renderedShapes cs) \<subseteq> {t}"
    using how
  proof (elim disjE conjE exE)
    assume "calls w1 = calls w"
    then have "calls w1 = calls w @ [] \<and> set (renderedShapes []) \<subseteq> {t}" by simp
    then show ?thesis ..
  next
    fix r dbg assume "calls w1 = calls w @ [SetContext r d, Render r t dbg]"
    then have "calls w1 = calls w @ [SetContext r d, Render r t dbg]
        \<and> set (renderedShapes [SetContext r d, Render r t dbg]) \<subseteq> {t}" by simp
    then show ?thesis ..
  qed
  then obtain cs1 where cs1: "calls w1 = calls w @ cs1" "set (renderedShapes cs1) \<subseteq> {t}"
    by blast
  from ih_calls obtain cs2 where cs2: "calls w' = calls w1 @ cs2" "set (renderedShapes cs2) \<subseteq> set xs"
    by blast
  have calls: "\<exists>cs. calls w' = calls w @ cs \<and> set (renderedShapes cs) \<subseteq> set (t # xs)"
  proof (intro exI conjI)
    show "calls w' = calls w @ (cs1 @ cs2)" using cs1(1) cs2(1) by simp
    show "set (renderedShapes (cs1 @ cs2)) \<subseteq> set (t # xs)" using cs1(2) cs2(2) by auto
  qed
  have frame: "lastShape w' k = lastShape w k \<and> elementOf w' k = elementOf w k"
    if "k \<notin> shapeId ` set (t # xs)" for k
  proof -
    from that have k: "k \<notin> shapeId ` set xs" "k \<noteq> shapeId t" by auto
    from ih_frame[OF k(1)] k(2) show ?thesis by (simp add: v)
  qed
  have dr: "drawn d w' k" if "drawn d w k" for k using ih_drawn[OF d2[OF that]] .
  have dr': "drawn d w' (shapeId s)" if "s \<in> set (t # xs)" for s
  proof (cases "s \<in> set xs")
    case True
    from ih_drawn'[OF this] show ?thesis .
  next
    case False
    with that have "s = t" by simp
    with ih_drawn[OF d1] show ?thesis by simp
  qed
  have k': "fst ` set (shapeRefsById w') = fst ` set (shapeRefsById w) \<union> shapeId ` set (t # xs)"
    unfolding ih_keys keys by auto
  from ih_mono ne have mono: "nextElement w \<le> nextElement w'" by linarith
  from IH have c': "refsConsistent d w'" by (rule conjunct1)
  show ?case
  proof (intro conjI allI impI ballI)
    show "refsConsistent d w'" by (rule c')
    show "lastShape w' k = lastShape w k" if "k \<notin> shapeId ` set (t # xs)" for k
      using frame[OF that] by simp
    show "elementOf w' k = elementOf w k" if "k \<notin> shapeId ` set (t # xs)" for k
      using frame[OF that] by simp
    show "drawn d w' k" if "drawn d w k" for k using dr[OF that] .
    show "drawn d w' (shapeId s)" if "s \<in> set (t # xs)" for s using dr'[OF that] .
    show "fst ` set (shapeRefsById w') = fst ` set (shapeRefsById w) \<union> shapeId ` set (t # xs)"
      by (rule k')
    show "nextElement w \<le> nextElement w'" by (rule mono)
    show "\<exists>cs. calls w' = calls w @ cs \<and> set (renderedShapes cs) \<subseteq> set (t # xs)" by (rule calls)
  qed
qed

lemma renderShapes_lastShape:
  assumes "refsConsistent d w" "renderShapes props d xs w = Inr w'"
    and "inj_on shapeId (set xs)" "s \<in> set xs"
  shows "lastShape w' (shapeId s) = Some s"
  using assms
proof (induction xs arbitrary: w)
  case Nil
  then show ?case by simp
next
  case (Cons t xs)
  from Cons.prems(2) obtain w1 where step: "renderShape props d t w = Inr w1"
    and rest: "renderShapes props d xs w1 = Inr w'"
    by (auto split: sum.splits)
  from Cons.prems(1) step obtain e where
    v: "lastShape w1 = (lastShape w)(shapeId t \<mapsto> t)" and c1: "refsConsistent d w1"
    by (rule renderShape_views) blast
  from Cons.prems(3) have inj: "inj_on shapeId (set xs)" by (simp add: inj_on_def)
  show ?case
  proof (cases "s \<in> set xs")
    case True
    from Cons.IH[OF c1 rest inj True] show ?thesis .
  next
    case False
    with Cons.prems(4) have "s = t" by simp
    with False Cons.prems(3) have "shapeId s \<notin> shapeId ` set xs" by (auto simp: inj_on_def)
    with renderShapes_summary[OF c1 rest] have "lastShape w' (shapeId s) = lastShape w1 (shapeId s)"
      by blast
    with v \<open>s = t\<close> show ?thesis by simp
  qed
qed

text \<open>Shapes that were rendered last by their refs are re-attached without a renderer call.\<close>

lemma renderShapes_cheap:
  assumes "refsConsistent d w" "\<forall>s \<in> set xs. lastShape w (shapeId s) = Some s"
  shows "\<exists>w'. renderShapes props d xs w = Inr w' \<and> calls w' = calls w \<and> heap w' = heap w
    \<and> shapeRefsById w' = shapeRefsById w \<and> nextElement w' = nextElement w \<and> nextRef w' = nextRef w
    \<and> refsConsistent d w' \<and> (\<forall>s \<in> set xs. drawn d w' (shapeId s))"
  using assms
proof (induction xs arbitrary: w)
  case Nil
  then show ?case by simp
next
  case (Cons t xs)
  from Cons.prems(2) have "lastShape w (shapeId t) = Some t" by simp
  then obtain a where a: "map_of (shapeRefsById w) (shapeId t) = Some a" "shape (heap w a) = Some t"
    by (auto simp: lastShape_def split: option.splits)
  from consistent_lookup[OF Cons.prems(1) a(1)] obtain e where e: "renderedElement (heap w a) = Some e"
    by (auto simp: registeredRef_iff)
  let ?w1 = "w\<lparr>children := (\<lambda>d'. if d' = doc (heap w a) then removeAll e (children w d') @ [e]
                                else removeAll e (children w d')),
               shapeRefsByRenderElement := AList.update e a (shapeRefsByRenderElement w)\<rparr>"
  have step: "renderShape props d t w = Inr ?w1" by (rule renderShape_cheap[OF a e])
  from Cons.prems(1) step obtain e' where c1: "refsConsistent d ?w1"
    by (rule renderShape_views) blast
  have "lastShape ?w1 = lastShape w" by (simp add: lastShape_def fun_eq_iff split: option.splits)
  with Cons.prems(2) have "\<forall>s \<in> set xs. lastShape ?w1 (shapeId s) = Some s" by simp
  from Cons.IH[OF c1 this] obtain w' where w': "renderShapes props d xs ?w1 = Inr w'"
    "calls w' = calls ?w1" "heap w' = heap ?w1" "shapeRefsById w' = shapeRefsById ?w1"
    "nextElement w' = nextElement ?w1" "nextRef w' = nextRef ?w1" "refsConsistent d w'"
    "\<forall>s \<in> set xs. drawn d w' (shapeId s)"
    by blast
  have all: "renderShapes props d (t # xs) w = Inr w'" using step w'(1) by simp
  from renderShapes_summary[OF Cons.prems(1) all] have "\<forall>s \<in> set (t # xs). drawn d w' (shapeId s)"
    by blast
  with all w' show ?case by simp
qed

subsection \<open>A whole pass\<close>

lemma map_of_filter_key:
  "map_of (filter (\<lambda>entry. P (fst entry)) al) k = (if P k then map_of al k else None)"
  by (induction al) auto

lemma renderShapes_append:
  "renderShapes props d (xs @ ys) w =
     (case renderShapes props d xs w of Inl failure \<Rightarrow> Inl failure
      | Inr w' \<Rightarrow> renderShapes props d ys w')"
  by (induction xs arbitrary: w) (auto split: sum.splits)

lemma consistent_element_owner:
  assumes c: "refsConsistent d w" and "elementOf w k = Some x" "elementOf w k' = Some x"
  shows "k = k'"
proof -
  from assms(2,3) obtain a a' where "map_of (shapeRefsById w) k = Some a"
    "map_of (shapeRefsById w) k' = Some a'" "renderedElement (heap w a) = renderedElement (heap w a')"
    by (auto simp: elementOf_def split: option.splits)
  then show ?thesis by (rule consistent_owner[OF c])
qed

lemma consistent_element_created:
  assumes c: "refsConsistent d w" and "elementOf w k = Some x"
  shows "x < nextElement w"
proof -
  from assms(2) obtain a where "map_of (shapeRefsById w) k = Some a" "renderedElement (heap w a) = Some x"
    by (auto simp: elementOf_def split: option.splits)
  with consistent_lookup[OF c this(1)] show ?thesis by (auto simp: registeredRef_iff)
qed

lemma elementOf_shapeElements:
  assumes c: "refsConsistent d w"
  shows "Some x \<in> set (shapeElements w) \<longleftrightarrow> (\<exists>k. elementOf w k = Some x)"
proof
  assume "Some x \<in> set (shapeElements w)"
  then obtain k a where "(k, a) \<in> set (shapeRefsById w)" "renderedElement (heap w a) = Some x"
    by (auto simp: shapeElements_def)
  with consistent_entry[OF c this(1)] have "elementOf w k = Some x" by (simp add: elementOf_def)
  then show "\<exists>k. elementOf w k = Some x" ..
next
  assume "\<exists>k. elementOf w k = Some x"
  then obtain k a where "map_of (shapeRefsById w) k = Some a" "renderedElement (heap w a) = Some x"
    by (auto simp: elementOf_def split: option.splits)
  then have "(k, a) \<in> set (shapeRefsById w)" "renderedElement (heap w (snd (k, a))) = Some x"
    by (auto dest: map_of_SomeD)
  then show "Some x \<in> set (shapeElements w)"
    unfolding shapeElements_def set_map by (metis (no_types, lifting) image_iff)
qed

text \<open>The first loop of a pass over a consistent state, for the flattened list \<open>xs\<close>.\<close>

lemma prune_pass:
  assumes c: "refsConsistent d w"
  obtains w0 where
    "pruneRefs (allShapesById xs) (map fst (shapeRefsById w)) w = Inr w0"
    "refsConsistent d w0"
    "heap w0 = heap w" "calls w0 = calls w" "nextElement w0 = nextElement w"
    "nextRef w0 = nextRef w" "diagramDoc w0 = diagramDoc w"
    "shapeRefsById w0 = filter (\<lambda>entry. fst entry \<in> shapeId ` set xs) (shapeRefsById w)"
    "\<And>k. lastShape w0 k = (if k \<in> shapeId ` set xs then lastShape w k else None)"
    "\<And>k. elementOf w0 k = (if k \<in> shapeId ` set xs then elementOf w k else None)"
    "\<And>d'. children w0 d' = filter (\<lambda>x. Some x \<notin> set (shapeElements w)) (children w d')"
proof -
  from consistent_returns[OF c] obtain w0 where
    ok: "pruneRefs (allShapesById xs) (map fst (shapeRefsById w)) w = Inr w0" by blast
  note fr = pruneRefs_frame[OF ok]
  have tab: "shapeRefsById w0 = filter (\<lambda>entry. fst entry \<in> shapeId ` set xs) (shapeRefsById w)"
    unfolding pruneRefs_byId[OF ok] by (intro filter_cong) (auto simp: allShapesById_iff)
  have look: "map_of (shapeRefsById w0) k = (if k \<in> shapeId ` set xs then map_of (shapeRefsById w) k else None)"
    for k unfolding tab by (rule map_of_filter_key)
  have ch: "children w0 d' = filter (\<lambda>x. Some x \<notin> set (shapeElements w)) (children w d')" for d'
    unfolding pruneRefs_children[OF ok]
  proof (rule filter_cong[OF refl])
    fix x
    have "(\<exists>k. elementOf w k = Some x) \<longleftrightarrow>
       \<not> (\<forall>k \<in> set (map fst (shapeRefsById w)). \<forall>a. map_of (shapeRefsById w) k = Some a
            \<longrightarrow> renderedElement (heap w a) \<noteq> Some x)"
    proof
      assume "\<exists>k. elementOf w k = Some x"
      then obtain k a where ka: "map_of (shapeRefsById w) k = Some a" "renderedElement (heap w a) = Some x"
        by (auto simp: elementOf_def split: option.splits)
      then have "k \<in> set (map fst (shapeRefsById w))" by (auto dest: map_of_SomeD intro: rev_image_eqI)
      with ka show "\<not> (\<forall>k \<in> set (map fst (shapeRefsById w)). \<forall>a. map_of (shapeRefsById w) k = Some a
            \<longrightarrow> renderedElement (heap w a) \<noteq> Some x)" by blast
    next
      assume "\<not> (\<forall>k \<in> set (map fst (shapeRefsById w)). \<forall>a. map_of (shapeRefsById w) k = Some a
            \<longrightarrow> renderedElement (heap w a) \<noteq> Some x)"
      then obtain k a where "map_of (shapeRefsById w) k = Some a" "renderedElement (heap w a) = Some x"
        by blast
      then have "elementOf w k = Some x" by (simp add: elementOf_def)
      then show "\<exists>k. elementOf w k = Some x" ..
    qed
    with elementOf_shapeElements[OF c, of x]
    show "(\<forall>k \<in> set (map fst (shapeRefsById w)). \<forall>a. map_of (shapeRefsById w) k = Some a
            \<longrightarrow> renderedElement (heap w a) \<noteq> Some x) = (Some x \<notin> set (shapeElements w))"
      by blast
  qed
  show thesis
  proof (rule that[of w0])
    show "pruneRefs (allShapesById xs) (map fst (shapeRefsById w)) w = Inr w0" by (rule ok)
    show "refsConsistent d w0" by (rule pruneRefs_consistent[OF c ok])
    show "lastShape w0 k = (if k \<in> shapeId ` set xs then lastShape w k else None)" for k
      using fr by (simp add: lastShape_def look cong: option.case_cong)
    show "elementOf w0 k = (if k \<in> shapeId ` set xs then elementOf w k else None)" for k
      using fr by (simp add: elementOf_def look cong: option.case_cong)
    show "children w0 d' = filter (\<lambda>x. Some x \<notin> set (shapeElements w)) (children w d')" for d'
      by (rule ch)
  qed (use fr tab in simp_all)
qed

lemma renderDiagram_bound:
  assumes "diagramDoc w = Some d" "getFlattenShapes stack props = Some xs"
  shows "renderDiagram stack props w =
     (case pruneRefs (allShapesById xs) (map fst (shapeRefsById w)) w of
        Inl failure \<Rightarrow> Inl failure
      | Inr w0 \<Rightarrow> renderShapes props d xs w0)"
  using assms by (simp add: renderDiagram_def)

lemma renderShape_diagramDoc:
  assumes "renderShape props d s w = Inr w'"
  shows "diagramDoc w' = diagramDoc w"
  using assms by (cases rule: renderShape_Inr_cases) simp_all

lemma renderShapes_diagramDoc:
  "renderShapes props d xs w = Inr w' \<Longrightarrow> diagramDoc w' = diagramDoc w"
proof (induction xs arbitrary: w)
  case Nil
  then show ?case by simp
next
  case (Cons t xs)
  from Cons.prems obtain w1 where step: "renderShape props d t w = Inr w1"
    and rest: "renderShapes props d xs w1 = Inr w'"
    by (auto split: sum.splits)
  from Cons.IH[OF rest] renderShape_diagramDoc[OF step] show ?case by simp
qed

text \<open>
  The second loop appends: every shape of the list, in order, puts its element last, when
  no id occurs twice and no element of a listed shape is attached when the loop starts.
\<close>

lemma renderShapes_children:
  assumes "refsConsistent d w" "renderShapes props d xs w = Inr w'"
    and "distinct (map shapeId xs)"
    and "\<forall>s \<in> set xs. \<forall>x. elementOf w (shapeId s) = Some x \<longrightarrow> x \<notin> set (children w d)"
  shows "map Some (children w' d) = map Some (children w d) @ map (\<lambda>s. elementOf w' (shapeId s)) xs"
  using assms
proof (induction xs arbitrary: w)
  case Nil
  then show ?case by simp
next
  case (Cons t xs)
  from Cons.prems(2) obtain w1 where step: "renderShape props d t w = Inr w1"
    and rest: "renderShapes props d xs w1 = Inr w'"
    by (auto split: sum.splits)
  from Cons.prems(1) step obtain e where
    v: "elementOf w1 = (elementOf w)(shapeId t \<mapsto> e)"
    and ch: "children w1 d = removeAll e (children w d) @ [e]"
    and c1: "refsConsistent d w1"
    and how: "(lastShape w (shapeId t) = Some t \<and> elementOf w (shapeId t) = Some e \<and> calls w1 = calls w
        \<and> heap w1 = heap w \<and> nextElement w1 = nextElement w)
     \<or> (lastShape w (shapeId t) \<noteq> Some t \<and> e = nextElement w \<and> nextElement w1 = Suc (nextElement w)
        \<and> (\<exists>r dbg. calls w1 = calls w @ [SetContext r d, Render r t dbg]))"
    by (rule renderShape_views) blast
  have fresh: "e \<notin> set (children w d)"
    using how
  proof (elim disjE conjE)
    assume "elementOf w (shapeId t) = Some e"
    with Cons.prems(4) show ?thesis by simp
  next
    assume "e = nextElement w"
    with consistent_children[OF Cons.prems(1), of e] show ?thesis by auto
  qed
  then have ch1: "children w1 d = children w d @ [e]" by (simp add: ch)
  from Cons.prems(3) have dist: "distinct (map shapeId xs)" and t: "shapeId t \<notin> shapeId ` set xs"
    by simp_all
  have hyp: "\<forall>s \<in> set xs. \<forall>x. elementOf w1 (shapeId s) = Some x \<longrightarrow> x \<notin> set (children w1 d)"
  proof (intro ballI allI impI)
    fix s x assume s: "s \<in> set xs" and x: "elementOf w1 (shapeId s) = Some x"
    from s have "shapeId s \<in> shapeId ` set xs" by (rule imageI)
    with t have ne: "shapeId s \<noteq> shapeId t" by metis
    with x have "elementOf w (shapeId s) = Some x" by (simp add: v)
    with Cons.prems(4) s have "x \<notin> set (children w d)" by simp
    moreover have "x \<noteq> e"
    proof
      assume "x = e"
      with x have "elementOf w1 (shapeId s) = Some e" by simp
      moreover have "elementOf w1 (shapeId t) = Some e" by (simp add: v)
      ultimately have "shapeId s = shapeId t" by (rule consistent_element_owner[OF c1])
      with ne show False ..
    qed
    ultimately show "x \<notin> set (children w1 d)" by (simp add: ch1)
  qed
  from renderShapes_summary[OF c1 rest] t
  have "elementOf w' (shapeId t) = elementOf w1 (shapeId t)" by blast
  then have kept: "elementOf w' (shapeId t) = Some e" by (simp add: v)
  from Cons.IH[OF c1 rest dist hyp] kept show ?case by (simp add: ch1)
qed

lemma allShapes_detached:
  assumes c: "refsConsistent d w"
    and ch: "children w0 d = filter (\<lambda>x. Some x \<notin> set (shapeElements w)) (children w d)"
    and el: "\<And>k. elementOf w0 k = (if k \<in> shapeId ` set xs then elementOf w k else None)"
  shows "\<forall>s \<in> set xs. \<forall>x. elementOf w0 (shapeId s) = Some x \<longrightarrow> x \<notin> set (children w0 d)"
proof (intro ballI allI impI)
  fix s x assume "s \<in> set xs" "elementOf w0 (shapeId s) = Some x"
  then have "elementOf w (shapeId s) = Some x" by (simp add: el)
  then have "Some x \<in> set (shapeElements w)"
    using elementOf_shapeElements[OF c, of x] by blast
  then show "x \<notin> set (children w0 d)" by (simp add: ch)
qed

subsection \<open>The example pass\<close>

lemmas example_defs = exampleProps_def exampleDiagram_def exampleItems_def exampleRenderers_def
  G1_def S1_def S2_def S3_def boundEditor_def newEditor_def

lemmas pass_defs = renderDiagram_def getFlattenShapes_def allShapesById_def renderShape_def
  ShapeRef_new_def ShapeRef_render_def ShapeRef_remove_def mustRender_def renderId_def
  Renderer_setContext_def Renderer_render_def Doc_add_def Element_remove_def setShape_def
  setRenderedElement_def Let_def

lemma first_pass_returns: "\<exists>w'. renderDiagram 1 exampleProps boundEditor = Inr w'"
  by (simp add: pass_defs example_defs)

subsection \<open>The summary of the second loop, fact by fact\<close>

lemma renderShapes_consistent:
  "refsConsistent d w \<Longrightarrow> renderShapes props d xs w = Inr w' \<Longrightarrow> refsConsistent d w'"
  by (rule renderShapes_summary[THEN conjunct1])

lemma renderShapes_frame:
  "refsConsistent d w \<Longrightarrow> renderShapes props d xs w = Inr w' \<Longrightarrow> k \<notin> shapeId ` set xs
     \<Longrightarrow> lastShape w' k = lastShape w k \<and> elementOf w' k = elementOf w k"
  by (rule renderShapes_summary[THEN conjunct2, THEN conjunct1, rule_format])

lemma renderShapes_keeps_drawn:
  "refsConsistent d w \<Longrightarrow> renderShapes props d xs w = Inr w' \<Longrightarrow> drawn d w k \<Longrightarrow> drawn d w' k"
  by (rule renderShapes_summary[THEN conjunct2, THEN conjunct2, THEN conjunct1, rule_format])

lemma renderShapes_draws:
  "refsConsistent d w \<Longrightarrow> renderShapes props d xs w = Inr w' \<Longrightarrow> s \<in> set xs
     \<Longrightarrow> drawn d w' (shapeId s)"
  by (rule renderShapes_summary[THEN conjunct2, THEN conjunct2, THEN conjunct2, THEN conjunct1,
        rule_format])

lemma renderShapes_keys:
  "refsConsistent d w \<Longrightarrow> renderShapes props d xs w = Inr w'
     \<Longrightarrow> fst ` set (shapeRefsById w') = fst ` set (shapeRefsById w) \<union> shapeId ` set xs"
  by (rule renderShapes_summary[THEN conjunct2, THEN conjunct2, THEN conjunct2, THEN conjunct2,
        THEN conjunct1])

lemma renderShapes_nextElement:
  "refsConsistent d w \<Longrightarrow> renderShapes props d xs w = Inr w' \<Longrightarrow> nextElement w \<le> nextElement w'"
  by (rule renderShapes_summary[THEN conjunct2, THEN conjunct2, THEN conjunct2, THEN conjunct2,
        THEN conjunct2, THEN conjunct1])

lemma renderShapes_calls:
  "refsConsistent d w \<Longrightarrow> renderShapes props d xs w = Inr w'
     \<Longrightarrow> \<exists>cs. calls w' = calls w @ cs \<and> set (renderedShapes cs) \<subseteq> set xs"
  by (rule renderShapes_summary[THEN conjunct2, THEN conjunct2, THEN conjunct2, THEN conjunct2,
        THEN conjunct2, THEN conjunct2])

subsection \<open>Passes that throw\<close>

lemma renderShape_returns:
  assumes c: "refsConsistent d w"
    and "registeredRenderers props (rendererKey t) \<noteq> None \<or> map_of (shapeRefsById w) (shapeId t) \<noteq> None"
  shows "\<exists>w'. renderShape props d t w = Inr w'"
proof (cases "map_of (shapeRefsById w) (shapeId t)")
  case None
  with assms(2) obtain r where "registeredRenderers props (rendererKey t) = Some r" by auto
  from renderShape_new[OF None this] show ?thesis by blast
next
  case (Some a)
  from consistent_lookup[OF c Some] obtain r e where
    r: "renderer (heap w a) = Some r" and e: "renderedElement (heap w a) = Some e"
    by (auto simp: registeredRef_iff)
  show ?thesis
  proof (cases "mustRender a t w")
    case True
    from renderShape_again[OF Some True r] show ?thesis by blast
  next
    case False
    with e have "shape (heap w a) = Some t" by (simp add: mustRender_def)
    from renderShape_cheap[OF Some this e] show ?thesis by blast
  qed
qed

lemma renderShapes_returns:
  assumes "refsConsistent d w"
    and "\<forall>t \<in> set xs. registeredRenderers props (rendererKey t) \<noteq> None
                     \<or> map_of (shapeRefsById w) (shapeId t) \<noteq> None"
  shows "\<exists>w'. renderShapes props d xs w = Inr w'"
  using assms
proof (induction xs arbitrary: w)
  case Nil
  show ?case by simp
next
  case (Cons t xs)
  from Cons.prems(2) have "registeredRenderers props (rendererKey t) \<noteq> None
      \<or> map_of (shapeRefsById w) (shapeId t) \<noteq> None" by simp
  from renderShape_returns[OF Cons.prems(1) this] obtain w1 where
    step: "renderShape props d t w = Inr w1" by blast
  from Cons.prems(1) step obtain e where c1: "refsConsistent d w1"
    and keys: "fst ` set (shapeRefsById w1) = insert (shapeId t) (fst ` set (shapeRefsById w))"
    by (rule renderShape_views) blast
  have "\<forall>u \<in> set xs. registeredRenderers props (rendererKey u) \<noteq> None
                     \<or> map_of (shapeRefsById w1) (shapeId u) \<noteq> None"
  proof
    fix u assume "u \<in> set xs"
    with Cons.prems(2) have "registeredRenderers props (rendererKey u) \<noteq> None
        \<or> shapeId u \<in> fst ` set (shapeRefsById w)"
      by (auto simp: map_of_eq_None_iff)
    with keys have "registeredRenderers props (rendererKey u) \<noteq> None
        \<or> shapeId u \<in> fst ` set (shapeRefsById w1)" by auto
    then show "registeredRenderers props (rendererKey u) \<noteq> None
        \<or> map_of (shapeRefsById w1) (shapeId u) \<noteq> None"
      by (simp add: map_of_eq_None_iff)
  qed
  from Cons.IH[OF c1 this] step show ?case by simp
qed

text \<open>A \<^verbatim>\<open>ShapeRef\<close> that was allocated and not registered changes nothing that is registered.\<close>

lemma unregistered_alloc:
  assumes c: "refsConsistent d w"
  shows "refsConsistent d (w\<lparr>heap := (heap w)(nextRef w := fresh), nextRef := Suc (nextRef w)\<rparr>)"
      (is "refsConsistent d ?w'")
    and "drawn d (w\<lparr>heap := (heap w)(nextRef w := fresh), nextRef := Suc (nextRef w)\<rparr>) k = drawn d w k"
    and "lastShape (w\<lparr>heap := (heap w)(nextRef w := fresh), nextRef := Suc (nextRef w)\<rparr>) k = lastShape w k"
    and "elementOf (w\<lparr>heap := (heap w)(nextRef w := fresh), nextRef := Suc (nextRef w)\<rparr>) k = elementOf w k"
proof -
  have reg: "a < nextRef w" if "map_of (shapeRefsById w) k = Some a" for k a
    using consistent_lookup[OF c that] by (simp add: registeredRef_iff)
  show "drawn d ?w' k = drawn d w k"
  proof (cases "map_of (shapeRefsById w) k")
    case None
    then show ?thesis by (simp add: drawn_def)
  next
    case (Some a)
    from reg[OF Some] have "a \<noteq> nextRef w" by simp
    with Some show ?thesis by (simp add: drawn_def cong: option.case_cong)
  qed
  show "lastShape ?w' k = lastShape w k"
  proof (cases "map_of (shapeRefsById w) k")
    case None
    then show ?thesis by (simp add: lastShape_def)
  next
    case (Some a)
    from reg[OF Some] have "a \<noteq> nextRef w" by simp
    with Some show ?thesis by (simp add: lastShape_def)
  qed
  show "elementOf ?w' k = elementOf w k"
  proof (cases "map_of (shapeRefsById w) k")
    case None
    then show ?thesis by (simp add: elementOf_def)
  next
    case (Some a)
    from reg[OF Some] have "a \<noteq> nextRef w" by simp
    with Some show ?thesis by (simp add: elementOf_def)
  qed
  show "refsConsistent d ?w'"
  proof (rule refsConsistentI)
    have same: "heap ?w' (snd entry) = heap w (snd entry)" if "entry \<in> set (shapeRefsById w)" for entry
    proof -
      from consistent_registered[OF c that] have "snd entry < nextRef w" by (simp add: registeredRef_iff)
      then show ?thesis by simp
    qed
    have tab: "shapeRefsById ?w' = shapeRefsById w" by simp
    show "distinct (map fst (shapeRefsById ?w'))" using consistent_keys[OF c] by simp
    have "map (\<lambda>entry. renderedElement (heap ?w' (snd entry))) (shapeRefsById w)
        = map (\<lambda>entry. renderedElement (heap w (snd entry))) (shapeRefsById w)"
      by (rule map_cong[OF refl]) (simp only: same)
    with consistent_elements[OF c]
    show "distinct (map (\<lambda>entry. renderedElement (heap ?w' (snd entry))) (shapeRefsById ?w'))"
      unfolding tab by (simp only:)
    show "registeredRef d ?w' (snd entry)" if "entry \<in> set (shapeRefsById ?w')" for entry
    proof -
      from that have mem: "entry \<in> set (shapeRefsById w)" by simp
      from consistent_registered[OF c mem] same[OF mem] show ?thesis
        by (auto simp: registeredRef_iff)
    qed
    show "e < nextElement ?w'" if "e \<in> set (children ?w' d)" for e
      using consistent_children[OF c, of e] that by simp
  qed
qed

lemma ShapeRef_render_Inl:
  assumes "ShapeRef_render a s w = Inl (err, w')"
  shows "w' = w"
proof (cases "mustRender a s w")
  case True
  show ?thesis
  proof (cases "renderer (heap w a)")
    case None
    from ShapeRef_render_undefined[OF True None] assms show ?thesis by simp
  next
    case (Some r)
    from ShapeRef_render_full[OF True Some] assms show ?thesis by simp
  qed
next
  case False
  with assms show ?thesis
    by (cases "renderedElement (heap w a)") (simp_all add: ShapeRef_render_def)
qed

lemma ShapeRef_render_Inr_element:
  assumes "ShapeRef_render a s w = Inr w'"
  shows "renderedElement (heap w' a) \<noteq> None"
proof (cases "mustRender a s w")
  case True
  show ?thesis
  proof (cases "renderer (heap w a)")
    case None
    from ShapeRef_render_undefined[OF True None] assms show ?thesis by simp
  next
    case (Some r)
    from ShapeRef_render_full[OF True Some] assms show ?thesis by auto
  qed
next
  case False
  then obtain e where e: "shape (heap w a) = Some s" "renderedElement (heap w a) = Some e"
    by (auto simp: mustRender_def)
  from ShapeRef_render_cheap[OF e] assms e(2) show ?thesis by (auto simp: Doc_add_def)
qed

lemma renderShape_Inl:
  assumes "renderShape props d s w = Inl (err, w')"
  shows "w' = w \<or> (\<exists>fresh. w' = w\<lparr>heap := (heap w)(nextRef w := fresh), nextRef := Suc (nextRef w)\<rparr>)"
proof -
  define start where "start = (case map_of (shapeRefsById w) (shapeId s) of
               Some ref \<Rightarrow> (ref, w)
             | None \<Rightarrow> ShapeRef_new d (registeredRenderers props (rendererKey s)) (\<not> isProduction props) w)"
  obtain ref w1 where st: "start = (ref, w1)" by (cases start)
  have w1: "w1 = w \<or> (\<exists>fresh. w1 = w\<lparr>heap := (heap w)(nextRef w := fresh), nextRef := Suc (nextRef w)\<rparr>)"
    using st unfolding start_def by (auto simp: ShapeRef_new_def split: option.splits)
  have run: "renderShape props d s w =
      (case ShapeRef_render ref s w1 of
           Inl failure \<Rightarrow> Inl failure
         | Inr w2 \<Rightarrow>
             (case renderId ref w2 of
                None \<Rightarrow> Inl (RenderedElementUndefined, w2)
              | Some e \<Rightarrow>
                  Inr (w2\<lparr>shapeRefsByRenderElement :=
                             AList.update e ref (shapeRefsByRenderElement w2),
                           shapeRefsById :=
                             AList.update (shapeId s) ref (shapeRefsById w2)\<rparr>)))"
    using st unfolding renderShape_def start_def by simp
  show ?thesis
  proof (cases "ShapeRef_render ref s w1")
    case (Inl failure)
    with run assms have "ShapeRef_render ref s w1 = Inl (err, w')" by simp
    from ShapeRef_render_Inl[OF this] w1 show ?thesis by simp
  next
    case (Inr w2)
    from ShapeRef_render_Inr_element[OF Inr] obtain e where "renderId ref w2 = Some e"
      by (auto simp: renderId_def)
    with run Inr assms show ?thesis by simp
  qed
qed

lemma renderShapes_throw_consistent:
  assumes "refsConsistent d w" "renderShapes props d xs w = Inl (err, w')"
  shows "refsConsistent d w'"
  using assms
proof (induction xs arbitrary: w)
  case Nil
  then show ?case by simp
next
  case (Cons t xs)
  show ?case
  proof (cases "renderShape props d t w")
    case (Inl failure)
    with Cons.prems(2) have "renderShape props d t w = Inl (err, w')" by simp
    from renderShape_Inl[OF this] Cons.prems(1) unregistered_alloc(1)[OF Cons.prems(1)]
    show ?thesis by auto
  next
    case (Inr w1)
    from Cons.prems(1) Inr obtain e where c1: "refsConsistent d w1"
      by (rule renderShape_views) blast
    from Inr Cons.prems(2) have "renderShapes props d xs w1 = Inl (err, w')" by simp
    from Cons.IH[OF c1 this] show ?thesis .
  qed
qed

text \<open>
  Every pass from a consistent state, returning or throwing, leaves a consistent state
  bound to the same document; \<open>newEditor\<close> bound to a document is consistent.
\<close>

lemma renderDiagram_throw_consistent:
  assumes c: "refsConsistent d w" and doc: "diagramDoc w = Some d"
    and thrown: "renderDiagram stack props w = Inl (err, w')"
  shows "refsConsistent d w'"
proof (cases "getFlattenShapes stack props")
  case None
  with thrown doc c show ?thesis by (simp add: renderDiagram_def)
next
  case (Some xs)
  from c obtain w0 where
    prune: "pruneRefs (allShapesById xs) (map fst (shapeRefsById w)) w = Inr w0"
    and c0: "refsConsistent d w0"
    by (rule prune_pass) blast
  from thrown renderDiagram_bound[OF doc Some] prune
  have "renderShapes props d xs w0 = Inl (err, w')" by simp
  from renderShapes_throw_consistent[OF c0 this] show ?thesis .
qed

lemma bound_newEditor_consistent: "refsConsistent d (newEditor\<lparr>diagramDoc := Some d\<rparr>)"
  by (simp add: refsConsistent_def newEditor_def)

subsection \<open>Shapes that were replaced\<close>

lemma renderShapes_element_mono:
  assumes "refsConsistent d w" "renderShapes props d xs w = Inr w'" "elementOf w k = Some x"
  shows "\<exists>x'. elementOf w' k = Some x' \<and> x \<le> x'"
  using assms
proof (induction xs arbitrary: w x)
  case Nil
  then show ?case by simp
next
  case (Cons t xs)
  from Cons.prems(2) obtain w1 where step: "renderShape props d t w = Inr w1"
    and rest: "renderShapes props d xs w1 = Inr w'"
    by (auto split: sum.splits)
  from Cons.prems(1) step obtain e where
    v: "elementOf w1 = (elementOf w)(shapeId t \<mapsto> e)"
    and c1: "refsConsistent d w1"
    and how: "(lastShape w (shapeId t) = Some t \<and> elementOf w (shapeId t) = Some e \<and> calls w1 = calls w
        \<and> heap w1 = heap w \<and> nextElement w1 = nextElement w)
     \<or> (lastShape w (shapeId t) \<noteq> Some t \<and> e = nextElement w \<and> nextElement w1 = Suc (nextElement w)
        \<and> (\<exists>r dbg. calls w1 = calls w @ [SetContext r d, Render r t dbg]))"
    by (rule renderShape_views) blast
  have "\<exists>x1. elementOf w1 k = Some x1 \<and> x \<le> x1"
  proof (cases "k = shapeId t")
    case False
    with Cons.prems(3) show ?thesis by (simp add: v)
  next
    case True
    from how have "x \<le> e"
    proof (elim disjE conjE)
      assume "elementOf w (shapeId t) = Some e"
      with True Cons.prems(3) show ?thesis by simp
    next
      assume "e = nextElement w"
      with consistent_element_created[OF Cons.prems(1,3)] show ?thesis by simp
    qed
    with True show ?thesis by (simp add: v)
  qed
  then obtain x1 where x1: "elementOf w1 k = Some x1" "x \<le> x1" by blast
  from Cons.IH[OF c1 rest x1(1)] obtain x' where "elementOf w' k = Some x'" "x1 \<le> x'" by blast
  with x1(2) have "elementOf w' k = Some x' \<and> x \<le> x'" by simp
  then show ?case ..
qed

text \<open>An element that no registered \<^verbatim>\<open>ShapeRef\<close> owns and that is detached stays so.\<close>

lemma renderShapes_released:
  assumes "refsConsistent d w" "renderShapes props d xs w = Inr w'"
    and "old < nextElement w" "old \<notin> set (children w d)" "\<forall>k. elementOf w k \<noteq> Some old"
  shows "old \<notin> set (children w' d)"
  using assms
proof (induction xs arbitrary: w)
  case Nil
  then show ?case by simp
next
  case (Cons t xs)
  from Cons.prems(2) obtain w1 where step: "renderShape props d t w = Inr w1"
    and rest: "renderShapes props d xs w1 = Inr w'"
    by (auto split: sum.splits)
  from Cons.prems(1) step obtain e where
    v: "elementOf w1 = (elementOf w)(shapeId t \<mapsto> e)"
    and ch: "children w1 d = removeAll e (children w d) @ [e]"
    and c1: "refsConsistent d w1"
    and how: "(lastShape w (shapeId t) = Some t \<and> elementOf w (shapeId t) = Some e \<and> calls w1 = calls w
        \<and> heap w1 = heap w \<and> nextElement w1 = nextElement w)
     \<or> (lastShape w (shapeId t) \<noteq> Some t \<and> e = nextElement w \<and> nextElement w1 = Suc (nextElement w)
        \<and> (\<exists>r dbg. calls w1 = calls w @ [SetContext r d, Render r t dbg]))"
    by (rule renderShape_views) blast
  from how have ne: "e \<noteq> old"
  proof (elim disjE conjE)
    assume "elementOf w (shapeId t) = Some e"
    with Cons.prems(5) show ?thesis by auto
  next
    assume "e = nextElement w"
    with Cons.prems(3) show ?thesis by simp
  qed
  from how Cons.prems(3) have lt: "old < nextElement w1" by (elim disjE conjE) simp_all
  from ne Cons.prems(4) have det: "old \<notin> set (children w1 d)" by (simp add: ch)
  from ne Cons.prems(5) have free: "\<forall>k. elementOf w1 k \<noteq> Some old" by (simp add: v)
  from Cons.IH[OF c1 rest lt det free] show ?case .
qed

text \<open>
  A listed shape that is not the \<open>lastShape\<close> of the \<^verbatim>\<open>ShapeRef\<close> registered for its id
  is rendered by the loop: a renderer call for it is logged, its id gets a new element,
  and the element it had stays detached.
\<close>

lemma renderShapes_rerenders:
  assumes "refsConsistent d w" "renderShapes props d xs w = Inr w'"
    and "\<forall>t \<in> set xs. shapeId t = shapeId s \<longrightarrow> t = s" "s \<in> set xs"
    and "lastShape w (shapeId s) \<noteq> Some s"
    and "elementOf w (shapeId s) = Some old" "old \<notin> set (children w d)"
  shows "(\<exists>cs. calls w' = calls w @ cs \<and> s \<in> set (renderedShapes cs))
       \<and> (\<exists>e. elementOf w' (shapeId s) = Some e \<and> nextElement w \<le> e)
       \<and> old \<notin> set (children w' d)"
  using assms
proof (induction xs arbitrary: w)
  case Nil
  then show ?case by simp
next
  case (Cons t xs)
  from Cons.prems(2) obtain w1 where step: "renderShape props d t w = Inr w1"
    and rest: "renderShapes props d xs w1 = Inr w'"
    by (auto split: sum.splits)
  from Cons.prems(1) step obtain e where
    v: "elementOf w1 = (elementOf w)(shapeId t \<mapsto> e)"
    and l: "lastShape w1 = (lastShape w)(shapeId t \<mapsto> t)"
    and ch: "children w1 d = removeAll e (children w d) @ [e]"
    and c1: "refsConsistent d w1"
    and how: "(lastShape w (shapeId t) = Some t \<and> elementOf w (shapeId t) = Some e \<and> calls w1 = calls w
        \<and> heap w1 = heap w \<and> nextElement w1 = nextElement w)
     \<or> (lastShape w (shapeId t) \<noteq> Some t \<and> e = nextElement w \<and> nextElement w1 = Suc (nextElement w)
        \<and> (\<exists>r dbg. calls w1 = calls w @ [SetContext r d, Render r t dbg]))"
    by (rule renderShape_views) blast
  note old_lt = consistent_element_created[OF Cons.prems(1,6)]
  from renderShapes_calls[OF c1 rest] obtain cs2 where cs2: "calls w' = calls w1 @ cs2" by blast
  show ?case
  proof (cases "t = s")
    case True
    with how Cons.prems(5) obtain r dbg where
      full: "e = nextElement w" "nextElement w1 = Suc (nextElement w)"
        "calls w1 = calls w @ [SetContext r d, Render r s dbg]"
      by auto
    have "calls w' = calls w @ ([SetContext r d, Render r s dbg] @ cs2)
        \<and> s \<in> set (renderedShapes ([SetContext r d, Render r s dbg] @ cs2))"
      using cs2 full(3) by simp
    then have A: "\<exists>cs. calls w' = calls w @ cs \<and> s \<in> set (renderedShapes cs)" ..
    from True full(1) have "elementOf w1 (shapeId s) = Some (nextElement w)" by (simp add: v)
    from renderShapes_element_mono[OF c1 rest this]
    have B: "\<exists>e. elementOf w' (shapeId s) = Some e \<and> nextElement w \<le> e" .
    from old_lt full(1) have ne: "e \<noteq> old" by simp
    from old_lt full(2) have lt: "old < nextElement w1" by simp
    from ne Cons.prems(7) have det: "old \<notin> set (children w1 d)" by (simp add: ch)
    have free: "\<forall>k. elementOf w1 k \<noteq> Some old"
    proof (intro allI notI)
      fix k assume k: "elementOf w1 k = Some old"
      with ne True have "k \<noteq> shapeId s" by (auto simp: v)
      with k True have "elementOf w k = Some old" by (simp add: v)
      from consistent_element_owner[OF Cons.prems(1) this Cons.prems(6)] \<open>k \<noteq> shapeId s\<close>
      show False by simp
    qed
    from renderShapes_released[OF c1 rest lt det free] A B show ?thesis by blast
  next
    case False
    with Cons.prems(3) have ids: "shapeId t \<noteq> shapeId s" by auto
    from False Cons.prems(4) have mem: "s \<in> set xs" by simp
    from Cons.prems(3) have inj: "\<forall>t \<in> set xs. shapeId t = shapeId s \<longrightarrow> t = s" by simp
    from ids Cons.prems(5) have last1: "lastShape w1 (shapeId s) \<noteq> Some s" by (simp add: l)
    from ids Cons.prems(6) have el1: "elementOf w1 (shapeId s) = Some old" by (simp add: v)
    from how have ne: "e \<noteq> old"
    proof (elim disjE conjE)
      assume "elementOf w (shapeId t) = Some e"
      with consistent_element_owner[OF Cons.prems(1) this, of "shapeId s"] Cons.prems(6) ids
      show ?thesis by auto
    next
      assume "e = nextElement w"
      with old_lt show ?thesis by simp
    qed
    with Cons.prems(7) have det: "old \<notin> set (children w1 d)" by (simp add: ch)
    from how obtain cs1 where cs1: "calls w1 = calls w @ cs1" by (elim disjE conjE exE) simp_all
    from how have mono: "nextElement w \<le> nextElement w1" by (elim disjE conjE) simp_all
    from Cons.IH[OF c1 rest inj mem last1 el1 det] obtain cs e' where
      ih: "calls w' = calls w1 @ cs" "s \<in> set (renderedShapes cs)"
        "elementOf w' (shapeId s) = Some e'" "nextElement w1 \<le> e'" "old \<notin> set (children w' d)"
      by blast
    have "calls w' = calls w @ (cs1 @ cs) \<and> s \<in> set (renderedShapes (cs1 @ cs))"
      using ih(1,2) cs1 by simp
    then have A: "\<exists>cs. calls w' = calls w @ cs \<and> s \<in> set (renderedShapes cs)" ..
    from ih(3,4) mono have "elementOf w' (shapeId s) = Some e' \<and> nextElement w \<le> e'" by simp
    then have B: "\<exists>e. elementOf w' (shapeId s) = Some e \<and> nextElement w \<le> e" ..
    from A B ih(5) show ?thesis by blast
  qed
qed

subsection \<open>Passes preserve consistency; the rendered example\<close>

lemma renderDiagram_consistent:
  assumes c: "refsConsistent d w" and doc: "diagramDoc w = Some d"
    and ok: "renderDiagram stack props w = Inr w'"
  shows "refsConsistent d w' \<and> diagramDoc w' = Some d"
proof -
  from ok doc obtain xs where flat: "getFlattenShapes stack props = Some xs"
    by (cases "getFlattenShapes stack props") (simp_all add: renderDiagram_def)
  from c obtain w0 where
    prune: "pruneRefs (allShapesById xs) (map fst (shapeRefsById w)) w = Inr w0"
    and c0: "refsConsistent d w0" and doc0: "diagramDoc w0 = diagramDoc w"
    by (rule prune_pass) blast
  from ok renderDiagram_bound[OF doc flat] prune
  have loop: "renderShapes props d xs w0 = Inr w'" by simp
  from renderShapes_consistent[OF c0 loop] renderShapes_diagramDoc[OF loop] doc0 doc
  show ?thesis by simp
qed

lemma renderedEditor_reached: "renderDiagram 1 (singleProps (Some S1)) boundEditor = Inr renderedEditor"
  by (simp add: pass_defs singleProps_def renderedEditor_def boundEditor_def newEditor_def
      exampleRenderers_def S1_def)

lemma renderedEditor_consistent: "refsConsistent 7 renderedEditor \<and> diagramDoc renderedEditor = Some 7"
  by (rule renderDiagram_consistent[OF _ _ renderedEditor_reached])
    (simp_all add: refsConsistent_def boundEditor_def newEditor_def)

text \<open>
  The first loop visits the keys in the enumeration order of the object; what it leaves
  depends on the set of keys only.
\<close>

lemma pruneRefs_order_irrelevant:
  assumes "pruneRefs live ks w = Inr w1" "pruneRefs live ks' w = Inr w2" "set ks = set ks'"
  shows "w1 = w2"
proof (rule Editor.equality)
  note f1 = pruneRefs_frame[OF assms(1)] and f2 = pruneRefs_frame[OF assms(2)]
  show "diagramDoc w1 = diagramDoc w2" "heap w1 = heap w2" "nextRef w1 = nextRef w2"
    "nextElement w1 = nextElement w2" "rendererContext w1 = rendererContext w2" "calls w1 = calls w2"
    using f1 f2 by simp_all
  show "shapeRefsById w1 = shapeRefsById w2"
    unfolding pruneRefs_byId[OF assms(1)] pruneRefs_byId[OF assms(2)] assms(3) ..
  show "shapeRefsByRenderElement w1 = shapeRefsByRenderElement w2"
    unfolding pruneRefs_byElement[OF assms(1)] pruneRefs_byElement[OF assms(2)] assms(3) ..
  show "children w1 = children w2"
  proof
    fix d show "children w1 d = children w2 d"
      unfolding pruneRefs_children[OF assms(1)] pruneRefs_children[OF assms(2)] assms(3) ..
  qed
  show "Editor.more w1 = Editor.more w2" by simp
qed

text \<open>\<open>renderedEditor\<close> is what \<^verbatim>\<open>initDiagramScope\<close> makes of the new editor and the diagram of \<open>S1\<close>.\<close>

lemma initDiagramScope_example:
  "initDiagramScope 1 (singleProps (Some S1)) 7 newEditor = Inr renderedEditor"
  using renderedEditor_reached by (simp add: initDiagramScope_def boundEditor_def)

subsection \<open>Ids that left the diagram\<close>

lemma renderShapes_element_table:
  assumes "refsConsistent d w" "renderShapes props d xs w = Inr w'"
    and "old < nextElement w" "\<forall>k. elementOf w k \<noteq> Some old"
  shows "map_of (shapeRefsByRenderElement w') old = map_of (shapeRefsByRenderElement w) old"
  using assms
proof (induction xs arbitrary: w)
  case Nil
  then show ?case by simp
next
  case (Cons t xs)
  from Cons.prems(2) obtain w1 where step: "renderShape props d t w = Inr w1"
    and rest: "renderShapes props d xs w1 = Inr w'"
    by (auto split: sum.splits)
  from Cons.prems(1) step obtain e where
    v: "elementOf w1 = (elementOf w)(shapeId t \<mapsto> e)"
    and byEl: "\<exists>a. map_of (shapeRefsByRenderElement w1) = (map_of (shapeRefsByRenderElement w))(e \<mapsto> a)"
    and c1: "refsConsistent d w1"
    and how: "(lastShape w (shapeId t) = Some t \<and> elementOf w (shapeId t) = Some e \<and> calls w1 = calls w
        \<and> heap w1 = heap w \<and> nextElement w1 = nextElement w)
     \<or> (lastShape w (shapeId t) \<noteq> Some t \<and> e = nextElement w \<and> nextElement w1 = Suc (nextElement w)
        \<and> (\<exists>r dbg. calls w1 = calls w @ [SetContext r d, Render r t dbg]))"
    by (rule renderShape_views) blast
  from how have ne: "e \<noteq> old"
  proof (elim disjE conjE)
    assume "elementOf w (shapeId t) = Some e"
    with Cons.prems(4) show ?thesis by auto
  next
    assume "e = nextElement w"
    with Cons.prems(3) show ?thesis by simp
  qed
  from how Cons.prems(3) have lt: "old < nextElement w1" by (elim disjE conjE) simp_all
  from ne Cons.prems(4) have free: "\<forall>k. elementOf w1 k \<noteq> Some old" by (simp add: v)
  from byEl ne have "map_of (shapeRefsByRenderElement w1) old = map_of (shapeRefsByRenderElement w) old"
    by auto
  with Cons.IH[OF c1 rest lt free] show ?case by simp
qed

text \<open>
  What a returning pass does remove for an id that left the flattened list: the entry of
  the id table, the entry of the element table under the id of the element the
  \<^verbatim>\<open>ShapeRef\<close> owns at that time, and that element from the scene root.
\<close>

lemma renderDiagram_stale_id_removed:
  assumes c: "refsConsistent d w" and doc: "diagramDoc w = Some d"
    and flat: "getFlattenShapes stack props = Some allShapes"
    and gone: "k \<notin> shapeId ` set allShapes" and el: "elementOf w k = Some e"
    and ok: "renderDiagram stack props w = Inr w'"
  shows "map_of (shapeRefsById w') k = None \<and> e \<notin> set (children w' d)
    \<and> map_of (shapeRefsByRenderElement w') e = None"
proof -
  from c obtain w0 where
    prune: "pruneRefs (allShapesById allShapes) (map fst (shapeRefsById w)) w = Inr w0"
    and c0: "refsConsistent d w0" and ne0: "nextElement w0 = nextElement w"
    and tab0: "shapeRefsById w0 = filter (\<lambda>entry. fst entry \<in> shapeId ` set allShapes) (shapeRefsById w)"
    and el0: "\<And>k. elementOf w0 k = (if k \<in> shapeId ` set allShapes then elementOf w k else None)"
    and ch0: "\<And>d'. children w0 d' = filter (\<lambda>x. Some x \<notin> set (shapeElements w)) (children w d')"
    by (rule prune_pass) blast
  from ok renderDiagram_bound[OF doc flat] prune
  have loop: "renderShapes props d allShapes w0 = Inr w'" by simp
  from el obtain a where a: "map_of (shapeRefsById w) k = Some a" "renderedElement (heap w a) = Some e"
    by (auto simp: elementOf_def split: option.splits)
  from gone have "k \<notin> fst ` set (shapeRefsById w0)" unfolding tab0 by auto
  with renderShapes_keys[OF c0 loop] gone have "k \<notin> fst ` set (shapeRefsById w')" by simp
  then have A: "map_of (shapeRefsById w') k = None" by (simp add: map_of_eq_None_iff)
  from consistent_element_created[OF c el] ne0 have lt: "e < nextElement w0" by simp
  from el elementOf_shapeElements[OF c, of e] have "Some e \<in> set (shapeElements w)" by blast
  then have det: "e \<notin> set (children w0 d)" by (simp add: ch0)
  have free: "\<forall>k'. elementOf w0 k' \<noteq> Some e"
  proof (intro allI notI)
    fix k' assume k': "elementOf w0 k' = Some e"
    then have "k' \<in> shapeId ` set allShapes" "elementOf w k' = Some e"
      by (simp_all add: el0 split: if_splits)
    with consistent_element_owner[OF c this(2) el] gone show False by simp
  qed
  from renderShapes_released[OF c0 loop lt det free] have B: "e \<notin> set (children w' d)" .
  from a have "k \<in> set (map fst (shapeRefsById w))" by (auto dest: map_of_SomeD intro: rev_image_eqI)
  moreover from gone have "allShapesById allShapes k \<noteq> Some True" by (simp add: allShapesById_iff)
  ultimately have "\<not> (\<forall>k \<in> set (map fst (shapeRefsById w)). allShapesById allShapes k \<noteq> Some True \<longrightarrow>
                 (\<forall>a. map_of (shapeRefsById w) k = Some a \<longrightarrow> renderedElement (heap w a) \<noteq> Some e))"
    using a by blast
  then have "e \<notin> fst ` set (shapeRefsByRenderElement w0)"
    unfolding pruneRefs_byElement[OF prune] by auto
  then have "map_of (shapeRefsByRenderElement w0) e = None" by (simp add: map_of_eq_None_iff)
  with renderShapes_element_table[OF c0 loop lt free]
  have C: "map_of (shapeRefsByRenderElement w') e = None" by simp
  from A B C show ?thesis by simp
qed

lemma drawn_attached:
  assumes "drawn d w k"
  shows "\<exists>x. elementOf w k = Some x \<and> x \<in> set (children w d)"
  using assms by (auto simp: drawn_def elementOf_def split: option.splits)

text \<open>
  An id that the loop does not visit keeps its element where the first loop left it:
  detached.
\<close>

lemma renderShapes_stays_detached:
  assumes "refsConsistent d w" "renderShapes props d xs w = Inr w'"
    and "k \<notin> shapeId ` set xs" "elementOf w k = Some x" "x \<notin> set (children w d)"
  shows "x \<notin> set (children w' d)"
  using assms
proof (induction xs arbitrary: w)
  case Nil
  then show ?case by simp
next
  case (Cons t xs)
  from Cons.prems(2) obtain w1 where step: "renderShape props d t w = Inr w1"
    and rest: "renderShapes props d xs w1 = Inr w'"
    by (auto split: sum.splits)
  from Cons.prems(1) step obtain e where
    v: "elementOf w1 = (elementOf w)(shapeId t \<mapsto> e)"
    and ch: "children w1 d = removeAll e (children w d) @ [e]"
    and c1: "refsConsistent d w1"
    and how: "(lastShape w (shapeId t) = Some t \<and> elementOf w (shapeId t) = Some e \<and> calls w1 = calls w
        \<and> heap w1 = heap w \<and> nextElement w1 = nextElement w)
     \<or> (lastShape w (shapeId t) \<noteq> Some t \<and> e = nextElement w \<and> nextElement w1 = Suc (nextElement w)
        \<and> (\<exists>r dbg. calls w1 = calls w @ [SetContext r d, Render r t dbg]))"
    by (rule renderShape_views) blast
  from Cons.prems(3) have k: "k \<noteq> shapeId t" "k \<notin> shapeId ` set xs" by auto
  from how have ne: "e \<noteq> x"
  proof (elim disjE conjE)
    assume "elementOf w (shapeId t) = Some e"
    with consistent_element_owner[OF Cons.prems(1) Cons.prems(4), of "shapeId t"] k(1)
    show ?thesis by auto
  next
    assume "e = nextElement w"
    with consistent_element_created[OF Cons.prems(1,4)] show ?thesis by simp
  qed
  from k(1) Cons.prems(4) have el1: "elementOf w1 k = Some x" by (simp add: v)
  from ne Cons.prems(5) have det: "x \<notin> set (children w1 d)" by (simp add: ch)
  from Cons.IH[OF c1 rest k(2) el1 det] show ?case .
qed

section \<open>The claims about the reconciliation pass\<close>




text \<open>
  C2.  When a pass returned and reconcile runs again with the same snapshot (the same
  flattened shapes, by reference; a consistent editor state and unique shape ids), the
  second pass returns without a single renderer call: the call log, the store of
  \<^verbatim>\<open>ShapeRef\<close>s (so every \<open>lastShape\<close> and every element) and the id table are what they
  were, every flattened shape is still the \<open>lastShape\<close> of its \<^verbatim>\<open>ShapeRef\<close>, and the
  element it already had is attached to the scene root again.
\<close>

theorem renderDiagram_again_only_reattaches:
  assumes "refsConsistent d w" and "diagramDoc w = Some d"
    and "getFlattenShapes stack props = Some allShapes"
    and "inj_on shapeId (set allShapes)"
    and "renderDiagram stack props w = Inr w1"
  shows "\<exists>w2. renderDiagram stack props w1 = Inr w2
           \<and> calls w2 = calls w1 \<and> heap w2 = heap w1 \<and> shapeRefsById w2 = shapeRefsById w1
           \<and> (\<forall>s \<in> set allShapes.
                 lastShape w2 (shapeId s) = Some s
                 \<and> elementOf w2 (shapeId s) = elementOf w1 (shapeId s)
                 \<and> drawn d w2 (shapeId s))"
proof -
  from assms(1) obtain w0 where
    prune: "pruneRefs (allShapesById allShapes) (map fst (shapeRefsById w)) w = Inr w0"
    and c0: "refsConsistent d w0"
    and tab0: "shapeRefsById w0 = filter (\<lambda>entry. fst entry \<in> shapeId ` set allShapes) (shapeRefsById w)"
    by (rule prune_pass) blast
  from assms(5) renderDiagram_bound[OF assms(2,3)] prune
  have loop: "renderShapes props d allShapes w0 = Inr w1" by simp
  note sum1 = renderShapes_summary[OF c0 loop]
  from sum1 have c1: "refsConsistent d w1" by (rule conjunct1)
  from sum1 have "fst ` set (shapeRefsById w1) = fst ` set (shapeRefsById w0) \<union> shapeId ` set allShapes"
    by blast
  with tab0 have keys1: "fst ` set (shapeRefsById w1) \<subseteq> shapeId ` set allShapes" by auto
  have last1: "lastShape w1 (shapeId s) = Some s" if "s \<in> set allShapes" for s
    by (rule renderShapes_lastShape[OF c0 loop assms(4) that])
  from renderShapes_diagramDoc[OF loop] pruneRefs_frame[OF prune] assms(2)
  have doc1: "diagramDoc w1 = Some d" by simp
  from c1 obtain w1' where
    prune2: "pruneRefs (allShapesById allShapes) (map fst (shapeRefsById w1)) w1 = Inr w1'"
    and c1': "refsConsistent d w1'"
    and fr: "heap w1' = heap w1" "calls w1' = calls w1"
    and tab1: "shapeRefsById w1' = filter (\<lambda>entry. fst entry \<in> shapeId ` set allShapes) (shapeRefsById w1)"
    and last1': "\<And>k. lastShape w1' k = (if k \<in> shapeId ` set allShapes then lastShape w1 k else None)"
    by (rule prune_pass) blast
  from keys1 have "filter (\<lambda>entry. fst entry \<in> shapeId ` set allShapes) (shapeRefsById w1) = shapeRefsById w1"
    by (intro filter_True) auto
  with tab1 have tab1': "shapeRefsById w1' = shapeRefsById w1" by simp
  have "\<forall>s \<in> set allShapes. lastShape w1' (shapeId s) = Some s"
    using last1 by (simp add: last1')
  from renderShapes_cheap[OF c1' this, of props] obtain w2 where
    loop2: "renderShapes props d allShapes w1' = Inr w2"
    and same: "calls w2 = calls w1'" "heap w2 = heap w1'" "shapeRefsById w2 = shapeRefsById w1'"
    and dr: "\<forall>s \<in> set allShapes. drawn d w2 (shapeId s)"
    by blast
  from renderDiagram_bound[OF doc1 assms(3)] prune2 loop2
  have run2: "renderDiagram stack props w1 = Inr w2" by simp
  have views: "lastShape w2 = lastShape w1" "elementOf w2 = elementOf w1"
    by (simp_all add: lastShape_def elementOf_def fun_eq_iff same fr tab1' cong: option.case_cong)
  show ?thesis
  proof (intro exI conjI ballI)
    show "renderDiagram stack props w1 = Inr w2" by (rule run2)
    show "calls w2 = calls w1" "heap w2 = heap w1" "shapeRefsById w2 = shapeRefsById w1"
      by (simp_all add: same fr tab1')
    show "lastShape w2 (shapeId s) = Some s" if "s \<in> set allShapes" for s
      using last1[OF that] by (simp add: views)
    show "elementOf w2 (shapeId s) = elementOf w1 (shapeId s)" if "s \<in> set allShapes" for s
      by (simp add: views)
    show "drawn d w2 (shapeId s)" if "s \<in> set allShapes" for s
      using dr that by blast
  qed
qed

theorem renderDiagram_again_only_reattaches_witness:
  "\<exists>w1 w2. renderDiagram 1 exampleProps boundEditor = Inr w1
     \<and> renderDiagram 1 exampleProps w1 = Inr w2
     \<and> calls w2 = calls w1 \<and> lastShape w2 ''S1'' = Some S1 \<and> drawn 7 w2 ''S1''"
proof -
  have c: "refsConsistent 7 boundEditor"
    by (simp add: refsConsistent_def boundEditor_def newEditor_def)
  have doc: "diagramDoc boundEditor = Some 7" by (simp add: boundEditor_def)
  have flat: "getFlattenShapes 1 exampleProps = Some [S2, S3, S1]"
    by (simp add: getFlattenShapes_def exampleProps_def exampleDiagram_def exampleItems_def G1_def)
  have inj: "inj_on shapeId (set [S2, S3, S1])" by (simp add: S1_def S2_def S3_def)
  obtain w1 where run: "renderDiagram 1 exampleProps boundEditor = Inr w1"
    using first_pass_returns by blast
  from renderDiagram_again_only_reattaches[OF c doc flat inj run] obtain w2 where
    "renderDiagram 1 exampleProps w1 = Inr w2" "calls w2 = calls w1"
    "lastShape w2 (shapeId S1) = Some S1" "drawn 7 w2 (shapeId S1)"
    by auto
  moreover have "shapeId S1 = ''S1''" by (simp add: S1_def)
  ultimately show ?thesis using run by auto
qed

text \<open>
  C5.  On a consistent editor state bound to \<open>d\<close>, let the flattened list be
  \<open>before @ s # after\<close>, where \<open>s\<close> has a renderer key without a registry entry and no
  \<^verbatim>\<open>ShapeRef\<close> (none is registered for its id and no earlier shape has its id), and \<open>s\<close>
  is the first such shape: every shape of \<open>before\<close> has a registered renderer or a
  registered \<^verbatim>\<open>ShapeRef\<close>.  Then the pass throws at \<open>s\<close> (the renderer is undefined) and
  stops there.  Every shape of \<open>before\<close> is drawn (its \<^verbatim>\<open>ShapeRef\<close> is in the id table,
  its element in the element table and attached to \<open>d\<close>), the renderer calls of the pass
  render shapes of \<open>before\<close> only, and \<open>s\<close> is not registered.  The failing shape and
  every shape after it (whose id is not the id of an earlier shape) is not rendered and
  not drawn: the \<open>lastShape\<close> and the element of its id are what they were before the
  pass, and the element, which the first loop detached, is not attached.  When no id
  occurs twice in \<open>before\<close>, the children of the scene root are the elements that belong
  to no \<^verbatim>\<open>ShapeRef\<close> followed by the elements of \<open>before\<close> in flattened order, and
  nothing else.
\<close>

theorem renderDiagram_unresolved_renderer_aborts:
  assumes "refsConsistent d w" and "diagramDoc w = Some d"
    and "getFlattenShapes stack props = Some (before @ s # after)"
    and "\<forall>t \<in> set before. registeredRenderers props (rendererKey t) \<noteq> None
                         \<or> map_of (shapeRefsById w) (shapeId t) \<noteq> None"
    and "registeredRenderers props (rendererKey s) = None"
    and "map_of (shapeRefsById w) (shapeId s) = None" and "shapeId s \<notin> shapeId ` set before"
  shows "\<exists>w'. renderDiagram stack props w = Inl (RendererUndefined, w')
           \<and> (\<forall>t \<in> set before. drawn d w' (shapeId t))
           \<and> (\<exists>cs. calls w' = calls w @ cs \<and> set (renderedShapes cs) \<subseteq> set before)
           \<and> map_of (shapeRefsById w') (shapeId s) = None
           \<and> refsConsistent d w'
           \<and> (\<forall>t \<in> set (s # after). shapeId t \<notin> shapeId ` set before \<longrightarrow>
                 \<not> drawn d w' (shapeId t)
                 \<and> lastShape w' (shapeId t) = lastShape w (shapeId t)
                 \<and> elementOf w' (shapeId t) = elementOf w (shapeId t)
                 \<and> (\<forall>x. elementOf w (shapeId t) = Some x \<longrightarrow> x \<notin> set (children w' d)))
           \<and> (distinct (map shapeId before) \<longrightarrow>
                 map Some (children w' d) =
                   map Some (filter (\<lambda>x. Some x \<notin> set (shapeElements w)) (children w d))
                   @ map (\<lambda>t. elementOf w' (shapeId t)) before)"
proof -
  let ?xs = "before @ s # after"
  from assms(1) obtain w0 where
    prune: "pruneRefs (allShapesById ?xs) (map fst (shapeRefsById w)) w = Inr w0"
    and c0: "refsConsistent d w0" and calls0: "calls w0 = calls w"
    and tab0: "shapeRefsById w0 = filter (\<lambda>entry. fst entry \<in> shapeId ` set ?xs) (shapeRefsById w)"
    and last0: "\<And>k. lastShape w0 k = (if k \<in> shapeId ` set ?xs then lastShape w k else None)"
    and el0: "\<And>k. elementOf w0 k = (if k \<in> shapeId ` set ?xs then elementOf w k else None)"
    and ch0: "\<And>d'. children w0 d' = filter (\<lambda>x. Some x \<notin> set (shapeElements w)) (children w d')"
    by (rule prune_pass) blast
  have look0: "map_of (shapeRefsById w0) k = (if k \<in> shapeId ` set ?xs then map_of (shapeRefsById w) k else None)"
    for k unfolding tab0 by (rule map_of_filter_key)
  have "\<forall>t \<in> set before. registeredRenderers props (rendererKey t) \<noteq> None
                         \<or> map_of (shapeRefsById w0) (shapeId t) \<noteq> None"
  proof
    fix t assume t: "t \<in> set before"
    then have "shapeId t \<in> shapeId ` set ?xs" by simp
    then have "map_of (shapeRefsById w0) (shapeId t) = map_of (shapeRefsById w) (shapeId t)"
      by (simp only: look0 if_True)
    with assms(4) t show "registeredRenderers props (rendererKey t) \<noteq> None
                         \<or> map_of (shapeRefsById w0) (shapeId t) \<noteq> None" by simp
  qed
  from renderShapes_returns[OF c0 this] obtain w1 where
    loop: "renderShapes props d before w0 = Inr w1" by blast
  note c1 = renderShapes_consistent[OF c0 loop]
  have dr1: "drawn d w1 (shapeId t)" if "t \<in> set before" for t
    by (rule renderShapes_draws[OF c0 loop that])
  from renderShapes_calls[OF c0 loop] obtain cs where
    cs: "calls w1 = calls w0 @ cs" "set (renderedShapes cs) \<subseteq> set before"
    by blast
  note renderShapes_keys[OF c0 loop]
  moreover from assms(6) have "shapeId s \<notin> fst ` set (shapeRefsById w)"
    by (simp add: map_of_eq_None_iff)
  then have "shapeId s \<notin> fst ` set (shapeRefsById w0)" unfolding tab0 by auto
  ultimately have "shapeId s \<notin> fst ` set (shapeRefsById w1)" using assms(7) by simp
  then have none: "map_of (shapeRefsById w1) (shapeId s) = None" by (simp add: map_of_eq_None_iff)
  let ?w' = "w1\<lparr>heap := (heap w1)(nextRef w1 :=
                      \<lparr>doc = d, renderer = None, showDebugMarkers = \<not> isProduction props,
                       shape = None, renderedElement = None\<rparr>),
                nextRef := Suc (nextRef w1)\<rparr>"
  from renderShape_unresolved[OF none assms(5)]
  have "renderShapes props d (s # after) w1 = Inl (RendererUndefined, ?w')" by simp
  with loop have "renderShapes props d ?xs w0 = Inl (RendererUndefined, ?w')"
    by (simp add: renderShapes_append)
  with renderDiagram_bound[OF assms(2,3)] prune
  have run: "renderDiagram stack props w = Inl (RendererUndefined, ?w')" by simp
  have ch': "children ?w' d = children w1 d" by simp
  have later: "\<not> drawn d ?w' (shapeId t)
                 \<and> lastShape ?w' (shapeId t) = lastShape w (shapeId t)
                 \<and> elementOf ?w' (shapeId t) = elementOf w (shapeId t)
                 \<and> (\<forall>x. elementOf w (shapeId t) = Some x \<longrightarrow> x \<notin> set (children ?w' d))"
    if t: "t \<in> set (s # after)" and fresh: "shapeId t \<notin> shapeId ` set before" for t
  proof -
    from t have live: "shapeId t \<in> shapeId ` set ?xs" by auto
    from renderShapes_frame[OF c0 loop fresh] live
    have same1: "lastShape w1 (shapeId t) = lastShape w (shapeId t)"
      "elementOf w1 (shapeId t) = elementOf w (shapeId t)"
      by (simp_all add: last0 el0)
    have L: "lastShape ?w' (shapeId t) = lastShape w (shapeId t)"
      using same1(1) by (simp only: unregistered_alloc(3)[OF c1])
    have E: "elementOf ?w' (shapeId t) = elementOf w (shapeId t)"
      using same1(2) by (simp only: unregistered_alloc(4)[OF c1])
    have D: "x \<notin> set (children ?w' d)" if x: "elementOf w (shapeId t) = Some x" for x
    proof -
      from x live have x0: "elementOf w0 (shapeId t) = Some x" by (simp add: el0)
      from x elementOf_shapeElements[OF assms(1), of x] have "Some x \<in> set (shapeElements w)" by blast
      then have det: "x \<notin> set (children w0 d)" by (simp add: ch0)
      from renderShapes_stays_detached[OF c0 loop fresh x0 det] show ?thesis unfolding ch' .
    qed
    have N: "\<not> drawn d ?w' (shapeId t)"
    proof
      assume "drawn d ?w' (shapeId t)"
      from drawn_attached[OF this] obtain x where
        "elementOf ?w' (shapeId t) = Some x" "x \<in> set (children ?w' d)" by blast
      with E D[of x] show False by simp
    qed
    from N L E D show ?thesis by blast
  qed
  have scene: "map Some (children ?w' d) =
                   map Some (filter (\<lambda>x. Some x \<notin> set (shapeElements w)) (children w d))
                   @ map (\<lambda>t. elementOf ?w' (shapeId t)) before"
    if dist: "distinct (map shapeId before)"
  proof -
    have "\<forall>t \<in> set ?xs. \<forall>x. elementOf w0 (shapeId t) = Some x \<longrightarrow> x \<notin> set (children w0 d)"
      by (rule allShapes_detached[OF assms(1) ch0 el0])
    then have det: "\<forall>t \<in> set before. \<forall>x. elementOf w0 (shapeId t) = Some x \<longrightarrow> x \<notin> set (children w0 d)"
      by auto
    from renderShapes_children[OF c0 loop dist det]
    have "map Some (children w1 d) = map Some (children w0 d) @ map (\<lambda>t. elementOf w1 (shapeId t)) before" .
    moreover have "map (\<lambda>t. elementOf ?w' (shapeId t)) before = map (\<lambda>t. elementOf w1 (shapeId t)) before"
      by (rule map_cong[OF refl]) (simp only: unregistered_alloc(4)[OF c1])
    ultimately show ?thesis by (simp only: ch' ch0)
  qed
  show ?thesis
  proof (intro exI conjI ballI impI)
    show "renderDiagram stack props w = Inl (RendererUndefined, ?w')" by (rule run)
    show "drawn d ?w' (shapeId t)" if "t \<in> set before" for t
      using dr1[OF that] by (simp only: unregistered_alloc(2)[OF c1])
    show "calls ?w' = calls w @ cs" using cs(1) calls0 by simp
    show "set (renderedShapes cs) \<subseteq> set before" by (rule cs(2))
    show "map_of (shapeRefsById ?w') (shapeId s) = None" using none by simp
    show "refsConsistent d ?w'" by (rule unregistered_alloc(1)[OF c1])
    show "\<not> drawn d ?w' (shapeId t)"
      if "t \<in> set (s # after)" "shapeId t \<notin> shapeId ` set before" for t
      using later[OF that] by (rule conjunct1)
    show "lastShape ?w' (shapeId t) = lastShape w (shapeId t)"
      if "t \<in> set (s # after)" "shapeId t \<notin> shapeId ` set before" for t
      using later[OF that] by (elim conjE)
    show "elementOf ?w' (shapeId t) = elementOf w (shapeId t)"
      if "t \<in> set (s # after)" "shapeId t \<notin> shapeId ` set before" for t
      using later[OF that] by (elim conjE)
    show "\<forall>x. elementOf w (shapeId t) = Some x \<longrightarrow> x \<notin> set (children ?w' d)"
      if "t \<in> set (s # after)" "shapeId t \<notin> shapeId ` set before" for t
      using later[OF that] by (elim conjE)
    show "map Some (children ?w' d) =
                   map Some (filter (\<lambda>x. Some x \<notin> set (shapeElements w)) (children w d))
                   @ map (\<lambda>t. elementOf ?w' (shapeId t)) before"
      if "distinct (map shapeId before)"
      by (rule scene[OF that])
  qed
qed

text \<open>
  At \<open>renderedEditor\<close>, where \<open>S1\<close> is drawn with element \<open>0\<close>: the pass over
  \<open>[S2, S3, S1]\<close> renders \<open>S2\<close> into element \<open>1\<close>, throws at \<open>S3\<close>, and leaves \<open>S1\<close>
  detached.
\<close>

theorem renderDiagram_unresolved_renderer_aborts_witness:
  "\<exists>w'. renderDiagram 1 labelMissingProps renderedEditor = Inl (RendererUndefined, w')
     \<and> drawn 7 w' ''S2'' \<and> map_of (shapeRefsById w') ''S3'' = None
     \<and> \<not> drawn 7 w' ''S3'' \<and> \<not> drawn 7 w' ''S1''
     \<and> lastShape w' ''S1'' = Some S1 \<and> elementOf w' ''S1'' = Some 0 \<and> 0 \<notin> set (children w' 7)
     \<and> map Some (children w' 7) = [elementOf w' ''S2'']
     \<and> (\<exists>cs. calls w' = calls renderedEditor @ cs \<and> set (renderedShapes cs) \<subseteq> {S2})"
proof -
  note c = renderedEditor_consistent[THEN conjunct1]
  note doc = renderedEditor_consistent[THEN conjunct2]
  have flat: "getFlattenShapes 1 labelMissingProps = Some ([S2] @ S3 # [S1])"
    by (simp add: getFlattenShapes_def labelMissingProps_def exampleProps_def exampleDiagram_def
        exampleItems_def G1_def)
  have before: "\<forall>t \<in> set [S2]. registeredRenderers labelMissingProps (rendererKey t) \<noteq> None
                         \<or> map_of (shapeRefsById renderedEditor) (shapeId t) \<noteq> None"
    by (simp add: labelMissingProps_def S2_def)
  have miss: "registeredRenderers labelMissingProps (rendererKey S3) = None"
    by (simp add: labelMissingProps_def S3_def)
  have new: "map_of (shapeRefsById renderedEditor) (shapeId S3) = None" "shapeId S3 \<notin> shapeId ` set [S2]"
    by (simp_all add: renderedEditor_def S2_def S3_def)
  have ids: "shapeId S1 = ''S1''" "shapeId S2 = ''S2''" "shapeId S3 = ''S3''"
    by (simp_all add: S1_def S2_def S3_def)
  have old: "lastShape renderedEditor ''S1'' = Some S1" "elementOf renderedEditor ''S1'' = Some 0"
    "filter (\<lambda>x. Some x \<notin> set (shapeElements renderedEditor)) (children renderedEditor 7) = []"
    by (simp_all add: lastShape_def elementOf_def shapeElements_def renderedEditor_def)
  from renderDiagram_unresolved_renderer_aborts[OF c doc flat before miss new] obtain w' cs where
    w': "renderDiagram 1 labelMissingProps renderedEditor = Inl (RendererUndefined, w')"
      "\<forall>t \<in> set [S2]. drawn 7 w' (shapeId t)"
      "calls w' = calls renderedEditor @ cs" "set (renderedShapes cs) \<subseteq> set [S2]"
      "map_of (shapeRefsById w') (shapeId S3) = None"
      "\<forall>t \<in> set (S3 # [S1]). shapeId t \<notin> shapeId ` set [S2] \<longrightarrow>
                 \<not> drawn 7 w' (shapeId t)
                 \<and> lastShape w' (shapeId t) = lastShape renderedEditor (shapeId t)
                 \<and> elementOf w' (shapeId t) = elementOf renderedEditor (shapeId t)
                 \<and> (\<forall>x. elementOf renderedEditor (shapeId t) = Some x \<longrightarrow> x \<notin> set (children w' 7))"
      "distinct (map shapeId [S2]) \<longrightarrow>
                 map Some (children w' 7) =
                   map Some (filter (\<lambda>x. Some x \<notin> set (shapeElements renderedEditor)) (children renderedEditor 7))
                   @ map (\<lambda>t. elementOf w' (shapeId t)) [S2]"
    by blast
  from w'(2) have A: "drawn 7 w' ''S2''" by (simp add: ids)
  from w'(5) have B: "map_of (shapeRefsById w') ''S3'' = None" by (simp add: ids)
  from w'(6) have C: "\<not> drawn 7 w' ''S3''" "\<not> drawn 7 w' ''S1''"
    "lastShape w' ''S1'' = Some S1" "elementOf w' ''S1'' = Some 0" "0 \<notin> set (children w' 7)"
    by (simp_all add: ids old)
  from w'(7) have D: "map Some (children w' 7) = [elementOf w' ''S2'']" by (simp add: ids old)
  from w'(3,4) have E: "\<exists>cs. calls w' = calls renderedEditor @ cs \<and> set (renderedShapes cs) \<subseteq> {S2}"
    by auto
  show ?thesis by (intro exI[of _ w'] conjI w'(1) A B C D E)
qed

text \<open>
  C4.  \<^verbatim>\<open>ShapeRef.render\<close> with a shape that is not the \<open>lastShape\<close> of the ref, or on a
  ref without an element, binds the ref's renderer to the ref's document, invokes
  \<open>render(shape, showDebugMarkers)\<close> and replaces the element by the newly created one
  (for a ref whose renderer is defined); \<open>lastShape\<close> becomes the shape.  In a pass, on
  a consistent state and unique ids: a flattened shape \<open>s\<close> whose id is registered with
  another \<open>lastShape\<close> (the shape was replaced by a new object) is rendered again, its
  id is drawn with a new element, and the element it had is no longer attached.
\<close>

theorem ShapeRef_render_replaced_shape:
  "((shape (heap w this) \<noteq> Some s \<or> renderedElement (heap w this) = None)
      \<longrightarrow> renderer (heap w this) = Some r
      \<longrightarrow> (\<exists>w'. ShapeRef_render this s w = Inr w'
             \<and> calls w' = calls w @ [SetContext r (doc (heap w this)),
                                       Render r s (showDebugMarkers (heap w this))]
             \<and> rendererContext w' r = Some (doc (heap w this))
             \<and> renderedElement (heap w' this) = Some (nextElement w)
             \<and> nextElement w' = Suc (nextElement w)
             \<and> children w' (doc (heap w this)) = children w (doc (heap w this)) @ [nextElement w]
             \<and> shape (heap w' this) = Some s))
   \<and> (refsConsistent d w \<longrightarrow> diagramDoc w = Some d
        \<longrightarrow> getFlattenShapes stack props = Some allShapes \<longrightarrow> inj_on shapeId (set allShapes)
        \<longrightarrow> s \<in> set allShapes
        \<longrightarrow> lastShape w (shapeId s) = Some previous \<longrightarrow> previous \<noteq> s
        \<longrightarrow> elementOf w (shapeId s) = Some old
        \<longrightarrow> renderDiagram stack props w = Inr w2
        \<longrightarrow> (\<exists>cs. calls w2 = calls w @ cs \<and> s \<in> set (renderedShapes cs))
            \<and> lastShape w2 (shapeId s) = Some s
            \<and> (\<exists>e. elementOf w2 (shapeId s) = Some e \<and> old < e)
            \<and> drawn d w2 (shapeId s)
            \<and> old \<notin> set (children w2 d))"
proof (intro conjI impI)
  assume "shape (heap w this) \<noteq> Some s \<or> renderedElement (heap w this) = None"
    and r: "renderer (heap w this) = Some r"
  then have must: "mustRender this s w" by (simp add: mustRender_def)
  show "\<exists>w'. ShapeRef_render this s w = Inr w'
             \<and> calls w' = calls w @ [SetContext r (doc (heap w this)),
                                       Render r s (showDebugMarkers (heap w this))]
             \<and> rendererContext w' r = Some (doc (heap w this))
             \<and> renderedElement (heap w' this) = Some (nextElement w)
             \<and> nextElement w' = Suc (nextElement w)
             \<and> children w' (doc (heap w this)) = children w (doc (heap w this)) @ [nextElement w]
             \<and> shape (heap w' this) = Some s"
    unfolding ShapeRef_render_full[OF must r] by simp
next
  assume c: "refsConsistent d w" and doc: "diagramDoc w = Some d"
    and flat: "getFlattenShapes stack props = Some allShapes"
    and inj: "inj_on shapeId (set allShapes)" and s: "s \<in> set allShapes"
    and prev: "lastShape w (shapeId s) = Some previous" "previous \<noteq> s"
    and old: "elementOf w (shapeId s) = Some old"
    and ok: "renderDiagram stack props w = Inr w2"
  from c obtain w0 where
    prune: "pruneRefs (allShapesById allShapes) (map fst (shapeRefsById w)) w = Inr w0"
    and c0: "refsConsistent d w0" and calls0: "calls w0 = calls w"
    and ne0: "nextElement w0 = nextElement w"
    and last0: "\<And>k. lastShape w0 k = (if k \<in> shapeId ` set allShapes then lastShape w k else None)"
    and el0: "\<And>k. elementOf w0 k = (if k \<in> shapeId ` set allShapes then elementOf w k else None)"
    and ch0: "\<And>d'. children w0 d' = filter (\<lambda>x. Some x \<notin> set (shapeElements w)) (children w d')"
    by (rule prune_pass) blast
  from ok renderDiagram_bound[OF doc flat] prune
  have loop: "renderShapes props d allShapes w0 = Inr w2" by simp
  from s have live: "shapeId s \<in> shapeId ` set allShapes" by (rule imageI)
  from live prev have last: "lastShape w0 (shapeId s) \<noteq> Some s" by (simp add: last0)
  from live old have el: "elementOf w0 (shapeId s) = Some old" by (simp add: el0)
  from allShapes_detached[OF c ch0 el0] s el have det: "old \<notin> set (children w0 d)" by blast
  from inj s have same: "\<forall>t \<in> set allShapes. shapeId t = shapeId s \<longrightarrow> t = s"
    by (auto dest: inj_onD)
  from renderShapes_rerenders[OF c0 loop same s last el det] obtain cs e where
    re: "calls w2 = calls w0 @ cs" "s \<in> set (renderedShapes cs)"
      "elementOf w2 (shapeId s) = Some e" "nextElement w0 \<le> e" "old \<notin> set (children w2 d)"
    by blast
  from re(1,2) calls0 have "calls w2 = calls w @ cs \<and> s \<in> set (renderedShapes cs)" by simp
  then show "\<exists>cs. calls w2 = calls w @ cs \<and> s \<in> set (renderedShapes cs)" ..
  show "lastShape w2 (shapeId s) = Some s" by (rule renderShapes_lastShape[OF c0 loop inj s])
  from consistent_element_created[OF c old] re(3,4) ne0
  have "elementOf w2 (shapeId s) = Some e \<and> old < e" by simp
  then show "\<exists>e. elementOf w2 (shapeId s) = Some e \<and> old < e" ..
  show "drawn d w2 (shapeId s)" by (rule renderShapes_draws[OF c0 loop s])
  show "old \<notin> set (children w2 d)" by (rule re(5))
qed

theorem ShapeRef_render_replaced_shape_witness:
  "(\<exists>w'. ShapeRef_render 0 S1replaced renderedEditor = Inr w'
       \<and> calls w' = calls renderedEditor @ [SetContext 0 7, Render 0 S1replaced True]
       \<and> renderedElement (heap w' 0) = Some 1)
   \<and> (\<exists>w2. renderDiagram 1 (singleProps (Some S1replaced)) renderedEditor = Inr w2
       \<and> lastShape w2 ''S1'' = Some S1replaced \<and> elementOf w2 ''S1'' = Some 1
       \<and> children w2 7 = [1])"
proof -
  note claim = ShapeRef_render_replaced_shape[of renderedEditor 0 S1replaced 0 7 1
      "singleProps (Some S1replaced)" "[S1replaced]" S1 0]
  have replaced: "S1 \<noteq> S1replaced" by (simp add: S1replaced_def S1_def)
  obtain w2 where run: "renderDiagram 1 (singleProps (Some S1replaced)) renderedEditor = Inr w2"
    "elementOf w2 ''S1'' = Some 1" "children w2 7 = [1]"
    by (simp add: pass_defs singleProps_def renderedEditor_def exampleRenderers_def
        S1replaced_def S1_def elementOf_def)
  have "lastShape w2 (shapeId S1replaced) = Some S1replaced"
    using claim[THEN conjunct2] renderedEditor_consistent run(1) replaced
    by (simp add: getFlattenShapes_def singleProps_def lastShape_def elementOf_def
        renderedEditor_def S1replaced_def S1_def)
  then have A: "lastShape w2 ''S1'' = Some S1replaced" by (simp add: S1replaced_def S1_def)
  have "\<exists>w'. ShapeRef_render 0 S1replaced renderedEditor = Inr w'
       \<and> calls w' = calls renderedEditor @ [SetContext 0 7, Render 0 S1replaced True]
       \<and> renderedElement (heap w' 0) = Some 1"
    using claim[THEN conjunct1] replaced by (auto simp: renderedEditor_def)
  with run A show ?thesis by blast
qed

text \<open>
  C8.  \<^verbatim>\<open>ShapeRef.remove\<close> only detaches: the store of \<^verbatim>\<open>ShapeRef\<close>s (the element field
  and \<open>lastShape\<close> of every ref), both tables, the renderer log and the element counter
  are unchanged; without an element the state is unchanged; with an element \<open>e\<close> every
  document loses \<open>e\<close> and keeps the rest in order.  A render of the same shape reference
  that follows takes the cheap path: no renderer call, the store unchanged, and \<open>e\<close> is
  the last child of the ref's document, once (where it was the last child before, the
  child list is what it was).
\<close>

theorem ShapeRef_remove_only_detaches:
  "heap (ShapeRef_remove this w) = heap w
   \<and> shapeRefsById (ShapeRef_remove this w) = shapeRefsById w
   \<and> shapeRefsByRenderElement (ShapeRef_remove this w) = shapeRefsByRenderElement w
   \<and> calls (ShapeRef_remove this w) = calls w
   \<and> nextElement (ShapeRef_remove this w) = nextElement w
   \<and> (renderedElement (heap w this) = None \<longrightarrow> ShapeRef_remove this w = w)
   \<and> (renderedElement (heap w this) = Some e \<longrightarrow>
         (\<forall>d. children (ShapeRef_remove this w) d = removeAll e (children w d)))
   \<and> (renderedElement (heap w this) = Some e \<longrightarrow> shape (heap w this) = Some s \<longrightarrow>
         (\<exists>w'. ShapeRef_render this s (ShapeRef_remove this w) = Inr w'
            \<and> calls w' = calls w \<and> heap w' = heap w \<and> nextElement w' = nextElement w
            \<and> children w' (doc (heap w this)) = removeAll e (children w (doc (heap w this))) @ [e]
            \<and> (\<forall>rest. children w (doc (heap w this)) = rest @ [e] \<longrightarrow> e \<notin> set rest \<longrightarrow>
                  children w' (doc (heap w this)) = children w (doc (heap w this)))))"
proof (intro conjI impI allI)
  show "renderedElement (heap w this) = None \<Longrightarrow> ShapeRef_remove this w = w"
    by (simp add: ShapeRef_remove_def)
  show "children (ShapeRef_remove this w) d = removeAll e (children w d)"
    if "renderedElement (heap w this) = Some e" for d
    using that by (simp add: ShapeRef_remove_def Element_remove_def)
  assume e: "renderedElement (heap w this) = Some e" and s: "shape (heap w this) = Some s"
  let ?w1 = "ShapeRef_remove this w"
  from e s have "ShapeRef_render this s ?w1 = Inr (Doc_add (doc (heap w this)) e ?w1)"
    using ShapeRef_render_cheap[of ?w1 this s e] by simp
  moreover have "children (Doc_add (doc (heap w this)) e ?w1) (doc (heap w this))
      = removeAll e (children w (doc (heap w this))) @ [e]"
    using e by (simp add: Doc_add_def ShapeRef_remove_def Element_remove_def)
  ultimately show "\<exists>w'. ShapeRef_render this s ?w1 = Inr w'
            \<and> calls w' = calls w \<and> heap w' = heap w \<and> nextElement w' = nextElement w
            \<and> children w' (doc (heap w this)) = removeAll e (children w (doc (heap w this))) @ [e]
            \<and> (\<forall>rest. children w (doc (heap w this)) = rest @ [e] \<longrightarrow> e \<notin> set rest \<longrightarrow>
                  children w' (doc (heap w this)) = children w (doc (heap w this)))"
    by (simp add: Doc_add_def)
qed simp_all

theorem ShapeRef_remove_only_detaches_witness:
  "children (ShapeRef_remove 0 renderedEditor) 7 = []
   \<and> heap (ShapeRef_remove 0 renderedEditor) = heap renderedEditor
   \<and> (\<exists>w'. ShapeRef_render 0 S1 (ShapeRef_remove 0 renderedEditor) = Inr w'
         \<and> calls w' = calls renderedEditor \<and> children w' 7 = children renderedEditor 7)"
proof -
  note claim = ShapeRef_remove_only_detaches[of 0 renderedEditor 0 S1]
  have e: "renderedElement (heap renderedEditor 0) = Some 0" "shape (heap renderedEditor 0) = Some S1"
    "doc (heap renderedEditor 0) = 7" "children renderedEditor 7 = [] @ [0]"
    by (simp_all add: renderedEditor_def)
  from claim e(1) have "children (ShapeRef_remove 0 renderedEditor) 7 = removeAll 0 (children renderedEditor 7)"
    by blast
  then have A: "children (ShapeRef_remove 0 renderedEditor) 7 = []" by (simp add: e(4))
  from claim have B: "heap (ShapeRef_remove 0 renderedEditor) = heap renderedEditor" by blast
  from claim e(1,2) obtain w' where w': "ShapeRef_render 0 S1 (ShapeRef_remove 0 renderedEditor) = Inr w'"
    "calls w' = calls renderedEditor"
    "\<forall>rest. children renderedEditor (doc (heap renderedEditor 0)) = rest @ [0] \<longrightarrow> 0 \<notin> set rest \<longrightarrow>
        children w' (doc (heap renderedEditor 0)) = children renderedEditor (doc (heap renderedEditor 0))"
    by blast
  from w'(3) e(3,4) have "children w' 7 = children renderedEditor 7" by simp
  with A B w'(1,2) show ?thesis by blast
qed

text \<open>
  C9.  Before a scene document is bound (\<open>diagramDoc\<close> is unset, as in the editor before
  \<^verbatim>\<open>initDiagramScope\<close>) \<^verbatim>\<open>renderDiagram\<close> returns at once with the state it was given:
  both tables, every child list and the renderer log are unchanged, whatever the props.
\<close>

theorem renderDiagram_without_document:
  "diagramDoc w = None \<Longrightarrow> renderDiagram stack props w = Inr w"
  by (simp add: renderDiagram_def)

theorem renderDiagram_without_document_witness:
  "diagramDoc newEditor = None \<and> renderDiagram 1 exampleProps newEditor = Inr newEditor
   \<and> componentDidUpdate 0 exampleProps newEditor = Inr newEditor"
  using renderDiagram_without_document [of newEditor 1 exampleProps]
    renderDiagram_without_document [of newEditor 0 exampleProps]
  by (simp add: newEditor_def componentDidUpdate_def)

text \<open>
  C3.  The pass in which an id leaves the flattened list removes the id from
  \<open>shapeRefsById\<close> and detaches the element, and it deletes one entry of
  \<open>shapeRefsByRenderElement\<close>: the one under the id of the element the \<^verbatim>\<open>ShapeRef\<close> owns
  then.  The entries that earlier renderings of the same \<^verbatim>\<open>ShapeRef\<close> left under the ids
  of their elements are never deleted.  Three passes from the bound editor show it: the
  diagram with \<open>S1\<close>; the diagram with \<open>S1\<close> replaced by a new object of the same id,
  which is rendered again into element \<open>1\<close>; the diagram without shapes.  After the third
  pass the id table is empty and nothing is attached, and the element table still maps
  element id \<open>0\<close> to the \<^verbatim>\<open>ShapeRef\<close> at address \<open>0\<close>.
\<close>

theorem renderDiagram_stale_element_entry_remains:
  "\<exists>w2 w3. renderDiagram 1 (singleProps (Some S1)) boundEditor = Inr renderedEditor
      \<and> renderDiagram 1 (singleProps (Some S1replaced)) renderedEditor = Inr w2
      \<and> renderDiagram 1 (singleProps None) w2 = Inr w3
      \<and> shapeRefsById w2 = [(''S1'', 0)]
      \<and> shapeRefsByRenderElement w2 = [(0, 0), (1, 0)]
      \<and> shapeRefsById w3 = []
      \<and> children w3 7 = []
      \<and> shapeRefsByRenderElement w3 = [(0, 0)]"
proof -
  obtain w2 where w2: "renderDiagram 1 (singleProps (Some S1replaced)) renderedEditor = Inr w2"
    "shapeRefsById w2 = [(''S1'', 0)]" "shapeRefsByRenderElement w2 = [(0, 0), (1, 0)]"
    "diagramDoc w2 = Some 7" "renderedElement (heap w2 0) = Some 1" "children w2 7 = [1]"
    by (simp add: pass_defs singleProps_def renderedEditor_def exampleRenderers_def
        S1replaced_def S1_def)
  have "\<exists>w3. renderDiagram 1 (singleProps None) w2 = Inr w3 \<and> shapeRefsById w3 = []
      \<and> children w3 7 = [] \<and> shapeRefsByRenderElement w3 = [(0, 0)]"
    using w2(2-6) by (simp add: pass_defs singleProps_def)
  with w2(1-3) renderedEditor_reached show ?thesis by blast
qed

end
